theory Spec2Isabelle
  imports Main "HOL-Library.AList" "HOL-Library.Char_ord" "HOL-Library.List_Lexorder"
begin

text \<open>
  A model of the request multiplexer \<open>ServeMux\<close> of the package shortmux. The
  functions of \<open>shortmux.go\<close> (\<open>registerErr\<close>, \<open>findHandler\<close>, \<open>matchOrRedirect\<close>,
  \<open>exactMatch\<close>, \<open>matchingMethods\<close>, \<open>cleanPath\<close>, \<open>stripHostPort\<close>) and
  \<open>routingIndex.addPattern\<close> are translated from their source. The pattern parser,
  the conflict check, the candidate query of the routing index and the routing tree are
  in files that are not at hand; their definitions here follow the specification and
  say so. Locks are left out: every function is a function of the state it reads.
\<close>

section \<open>Strings\<close>

text \<open>
  Go strings are byte sequences; they are modelled as \<open>string\<close> (a list of 8-bit
  characters). \<open>strings.HasSuffix(path, "/")\<close> and \<open>strings.Count(path, "/")\<close> are the
  two library calls of \<open>shortmux.go\<close> that the routing decisions depend on.
\<close>

definition hasSuffixSlash :: "string \<Rightarrow> bool" where
  "hasSuffixSlash p = (p \<noteq> [] \<and> last p = CHR ''/'')"

definition countSlash :: "string \<Rightarrow> nat" where
  "countSlash p = count_list p (CHR ''/'')"

text \<open>\<open>splitOn c s\<close> cuts \<open>s\<close> at every occurrence of \<open>c\<close> (as \<open>strings.Split\<close> does).\<close>

fun splitOn :: "char \<Rightarrow> string \<Rightarrow> string list" where
  "splitOn c [] = [[]]"
| "splitOn c (x # xs) =
     (if x = c then [] # splitOn c xs
      else (case splitOn c xs of [] \<Rightarrow> [[x]] | w # ws \<Rightarrow> (x # w) # ws))"

fun joinSlash :: "string list \<Rightarrow> string" where
  "joinSlash [] = []"
| "joinSlash (x # xs) = CHR ''/'' # x @ joinSlash xs"

text \<open>
  Percent-decoding of one path segment (\<open>pathUnescape\<close>): the standard library's
  \<open>url.PathUnescape\<close>, with the segment returned unchanged when an escape is malformed.
\<close>

definition unhex :: "char \<Rightarrow> nat option" where
  "unhex c =
     (let n = (of_char c :: nat) in
      if 48 \<le> n \<and> n \<le> 57 then Some (n - 48)
      else if 97 \<le> n \<and> n \<le> 102 then Some (n - 87)
      else if 65 \<le> n \<and> n \<le> 70 then Some (n - 55)
      else None)"

fun unescapeAux :: "string \<Rightarrow> string option" where
  "unescapeAux [] = Some []"
| "unescapeAux (c # cs) =
     (if c = CHR ''%'' then
        (case cs of
           a # b # rest \<Rightarrow>
             (case (unhex a, unhex b) of
                (Some x, Some y) \<Rightarrow>
                  (case unescapeAux rest of
                     None \<Rightarrow> None
                   | Some r \<Rightarrow> Some ((char_of (16 * x + y) :: char) # r))
              | _ \<Rightarrow> None)
         | _ \<Rightarrow> None)
      else (case unescapeAux cs of None \<Rightarrow> None | Some r \<Rightarrow> Some (c # r)))"

definition pathUnescape :: "string \<Rightarrow> string" where
  "pathUnescape p = (case unescapeAux p of None \<Rightarrow> p | Some u \<Rightarrow> u)"

section \<open>Patterns\<close>

text \<open>
  The pattern and segment structs are declared in a file that is not part of the
  sources at hand; their fields are the ones \<open>shortmux.go\<close> and the routing index read:
  \<open>seg.s\<close>, \<open>seg.wild\<close>, \<open>seg.multi\<close>, \<open>pat.segments\<close>, \<open>pat.loc\<close>, the method and the
  host, and the pattern string returned by \<open>String()\<close>.
\<close>

record segment =
  seg_s :: string
  seg_wild :: bool
  seg_multi :: bool

record pattern =
  pat_str :: string
  pat_method :: string
  pat_host :: string
  pat_segments :: "segment list"
  pat_loc :: string

text \<open>
  \<open>lastSegment\<close> reads \<open>segments[len(segments)-1]\<close>; on a pattern without segments the
  Go code panics, which is the value \<open>None\<close> here.
\<close>

definition lastSegment :: "pattern \<Rightarrow> segment option" where
  "lastSegment p =
     (case pat_segments p of [] \<Rightarrow> None | _ # _ \<Rightarrow> Some (last (pat_segments p)))"

section \<open>The routing index\<close>

type_synonym routingIndexKey = "nat \<times> string"

text \<open>
  The Go map from keys to pattern slices is an association list; a missing key (and the
  nil map) reads as the empty slice. Patterns are identified by their value.
\<close>

record routingIndex =
  idx_segments :: "(routingIndexKey \<times> pattern list) list"
  idx_multis :: "pattern list"

definition emptyIndex :: routingIndex where
  "emptyIndex = \<lparr>idx_segments = [], idx_multis = []\<rparr>"

definition bucket :: "(routingIndexKey \<times> pattern list) list \<Rightarrow> routingIndexKey \<Rightarrow> pattern list" where
  "bucket m key = (case map_of m key of None \<Rightarrow> [] | Some ps \<Rightarrow> ps)"

definition segmentKey :: "nat \<Rightarrow> segment \<Rightarrow> routingIndexKey" where
  "segmentKey pos seg = (pos, if \<not> seg_wild seg then seg_s seg else [])"

text \<open>The loop \<open>for pos, seg := range pat.segments\<close> of \<open>routingIndex.addPattern\<close>.\<close>

fun addSegmentKeys ::
  "(routingIndexKey \<times> pattern list) list \<Rightarrow> pattern \<Rightarrow> nat \<Rightarrow> segment list \<Rightarrow>
   (routingIndexKey \<times> pattern list) list" where
  "addSegmentKeys m pat pos [] = m"
| "addSegmentKeys m pat pos (seg # segs) =
     addSegmentKeys
       (AList.update (segmentKey pos seg) (bucket m (segmentKey pos seg) @ [pat]) m)
       pat (Suc pos) segs"

definition routingIndex_addPattern :: "routingIndex \<Rightarrow> pattern \<Rightarrow> routingIndex option" where
  "routingIndex_addPattern idx pat =
     (case lastSegment pat of
        None \<Rightarrow> None
      | Some ls \<Rightarrow>
          if seg_multi ls then Some (idx\<lparr>idx_multis := idx_multis idx @ [pat]\<rparr>)
          else Some (idx\<lparr>idx_segments :=
                 addSegmentKeys (idx_segments idx) pat 0 (pat_segments pat)\<rparr>))"

section \<open>Routing nodes and exact matches\<close>

text \<open>
  A handler is an interface value: the nil interface, an \<open>http.HandlerFunc\<close> (whose
  function value may itself be nil), or any other handler. Function values and other
  handlers are told apart by a number.
\<close>

datatype handler = NilInterface | HandlerFunc "nat option" | OtherHandler nat

datatype routingNode =
  RoutingNode (node_pattern: "pattern option") (node_handler: handler)
    (children: "(string \<times> routingNode) list") (wildChild: "routingNode option")
    (multiChild: "routingNode option")

text \<open>
  \<open>exactMatch\<close> of \<open>shortmux.go\<close>. The node argument is a pointer (\<open>None\<close> is nil); a
  node without a pattern, or a pattern without segments, makes the Go code panic
  (result \<open>None\<close>).
\<close>

definition exactMatch :: "routingNode option \<Rightarrow> string \<Rightarrow> bool option" where
  "exactMatch n path =
     (case n of
        None \<Rightarrow> Some False
      | Some nd \<Rightarrow>
          (case node_pattern nd of
             None \<Rightarrow> None
           | Some pat \<Rightarrow>
               (case lastSegment pat of
                  None \<Rightarrow> None
                | Some ls \<Rightarrow>
                    if \<not> seg_multi ls then Some True
                    else if length path > 0 \<and> last path \<noteq> CHR ''/'' then Some False
                    else Some (length (pat_segments pat) = countSlash path))))"

section \<open>Shape of the routing index\<close>

text \<open>
  The shape the index is meant to have, relative to the set \<open>R\<close> of patterns that
  were added to it: a pattern ending in a multi wildcard is in \<open>multis\<close> and in no
  bucket; any other pattern is in the bucket of key \<open>(pos, s)\<close> exactly when \<open>pos\<close> is one
  of its positions and \<open>s\<close> is the literal at that position, or empty for a wildcard.
\<close>

definition endsInMulti :: "pattern \<Rightarrow> bool" where
  "endsInMulti p = (case lastSegment p of None \<Rightarrow> False | Some ls \<Rightarrow> seg_multi ls)"

definition indexedUnder :: "pattern \<Rightarrow> routingIndexKey \<Rightarrow> bool" where
  "indexedUnder p key =
     (fst key < length (pat_segments p) \<and>
      key = segmentKey (fst key) (pat_segments p ! fst key))"

definition indexShape :: "pattern set \<Rightarrow> routingIndex \<Rightarrow> bool" where
  "indexShape R idx =
     ((\<forall>p. p \<in> set (idx_multis idx) \<longleftrightarrow> p \<in> R \<and> endsInMulti p) \<and>
      (\<forall>key p. p \<in> set (bucket (idx_segments idx) key) \<longleftrightarrow>
          p \<in> R \<and> \<not> endsInMulti p \<and> indexedUnder p key))"

section \<open>Parsing patterns\<close>

text \<open>
  Modelled from the spec: \<open>parsePattern\<close> is not part of the sources at hand. The
  definition follows the grammar \<open>[METHOD ][HOST]/[PATH]\<close> of the specification and of
  the documentation of \<open>ServeMux\<close>: an optional method token followed by spaces or tabs,
  a host up to the first slash, and a path split at its slashes into literal segments
  (unescaped), wildcards \<open>{name}\<close>, a final \<open>{name...}\<close> or trailing slash (a multi
  wildcard) or a final \<open>{$}\<close> (the literal segment \<open>/\<close>). Wildcard names are
  identifiers over ASCII letters, digits and the underscore.
\<close>

datatype parse_error =
    EmptyPattern
  | InvalidMethod string
  | MissingSlash
  | HostContainsBrace
  | BadWildcardStart
  | BadWildcardEnd
  | DollarNotAtEnd
  | MultiNotAtEnd
  | EmptyWildcard
  | BadWildcardName string
  | DuplicateWildcardName string

definition isLetter :: "char \<Rightarrow> bool" where
  "isLetter c = (c \<in> set ''abcdefghijklmnopqrstuvwxyzABCDEFGHIJKLMNOPQRSTUVWXYZ'')"

definition isDigit :: "char \<Rightarrow> bool" where
  "isDigit c = (c \<in> set ''0123456789'')"

definition isTokenChar :: "char \<Rightarrow> bool" where
  "isTokenChar c = (isLetter c \<or> isDigit c \<or> c \<in> set ''!#$%&*+-.^_`|~'' \<or> c = CHR 0x27)"

definition isToken :: "string \<Rightarrow> bool" where
  "isToken v = (v \<noteq> [] \<and> list_all isTokenChar v)"

definition validMethod :: "string \<Rightarrow> bool" where
  "validMethod m = (m \<noteq> [] \<and> isToken m)"

definition isValidWildcardName :: "string \<Rightarrow> bool" where
  "isValidWildcardName name =
     (case name of
        [] \<Rightarrow> False
      | c # cs \<Rightarrow> (isLetter c \<or> c = CHR ''_'') \<and>
                   list_all (\<lambda>d. isLetter d \<or> d = CHR ''_'' \<or> isDigit d) cs)"

definition isSpaceTab :: "char \<Rightarrow> bool" where
  "isSpaceTab c = (c = CHR '' '' \<or> c = CHR 0x09)"

definition hasSuffixDots :: "string \<Rightarrow> bool" where
  "hasSuffixDots name = (3 \<le> length name \<and> drop (length name - 3) name = ''...'')"

fun parseSegments :: "string list \<Rightarrow> string list \<Rightarrow> parse_error + segment list" where
  "parseSegments [] seenNames = Inr []"
| "parseSegments (seg # rest) seenNames =
     (if seg = [] \<and> rest = [] then
        Inr [\<lparr>seg_s = [], seg_wild = True, seg_multi = True\<rparr>]
      else if CHR ''{'' \<notin> set seg then
        (case parseSegments rest seenNames of
           Inl e \<Rightarrow> Inl e
         | Inr segs \<Rightarrow>
             Inr (\<lparr>seg_s = pathUnescape seg, seg_wild = False, seg_multi = False\<rparr> # segs))
      else if hd seg \<noteq> CHR ''{'' then Inl BadWildcardStart
      else if last seg \<noteq> CHR ''}'' then Inl BadWildcardEnd
      else
        (let name = butlast (tl seg) in
         if name = ''$'' then
           (if rest \<noteq> [] then Inl DollarNotAtEnd
            else Inr [\<lparr>seg_s = ''/'', seg_wild = False, seg_multi = False\<rparr>])
         else
           (let multi = hasSuffixDots name;
                name' = (if multi then take (length name - 3) name else name)
            in if multi \<and> rest \<noteq> [] then Inl MultiNotAtEnd
               else if name' = [] then Inl EmptyWildcard
               else if \<not> isValidWildcardName name' then Inl (BadWildcardName name')
               else if name' \<in> set seenNames then Inl (DuplicateWildcardName name')
               else
                 (case parseSegments rest (name' # seenNames) of
                    Inl e \<Rightarrow> Inl e
                  | Inr segs \<Rightarrow>
                      Inr (\<lparr>seg_s = name', seg_wild = True, seg_multi = multi\<rparr> # segs)))))"

definition parsePattern :: "string \<Rightarrow> parse_error + pattern" where
  "parsePattern s =
     (if s = [] then Inl EmptyPattern
      else
        (let found = (\<exists>c \<in> set s. isSpaceTab c);
             method = (if found then takeWhile (\<lambda>c. \<not> isSpaceTab c) s else []);
             rest = (if found
                     then dropWhile isSpaceTab (tl (dropWhile (\<lambda>c. \<not> isSpaceTab c) s))
                     else s)
         in if method \<noteq> [] \<and> \<not> validMethod method then Inl (InvalidMethod method)
            else if CHR ''/'' \<notin> set rest then Inl MissingSlash
            else
              (let host = takeWhile (\<lambda>c. c \<noteq> CHR ''/'') rest;
                   path = dropWhile (\<lambda>c. c \<noteq> CHR ''/'') rest
               in if CHR ''{'' \<in> set host then Inl HostContainsBrace
                  else
                    (case parseSegments (splitOn (CHR ''/'') (tl path)) [] of
                       Inl e \<Rightarrow> Inl e
                     | Inr segs \<Rightarrow>
                         Inr \<lparr>pat_str = s, pat_method = method, pat_host = host,
                              pat_segments = segs, pat_loc = []\<rparr>))))"

section \<open>Conflicts between patterns\<close>

text \<open>
  Modelled from the spec: the conflict detector (\<open>conflictsWith\<close>) is not part of the
  sources at hand. Two patterns are compared in the method dimension and in the path
  dimension; the path dimension goes through the segments position by position from
  the left. Unequal literals at a position, or different lengths with no multi wildcard
  to cover the tail, make two paths disjoint. A wildcard is more general than a literal
  at its position and a multi wildcard more general than whatever remains on the other
  side. Following README.md (registering \<open>/a/{b}\<close> and \<open>/{c}/d\<close> "works fine - most
  specific wins (reading from left-to-right)"), the leftmost position at which two
  paths that are not disjoint differ decides which of them is the more specific one.
  Patterns conflict when they have the same host and, with methods and paths taken
  together, they match the same requests or neither is more specific than the other.
\<close>

datatype relationship = equivalent | moreGeneral | moreSpecific | disjoint | overlaps

definition compareMethods :: "pattern \<Rightarrow> pattern \<Rightarrow> relationship" where
  "compareMethods p1 p2 =
     (if pat_method p1 = pat_method p2 then equivalent
      else if pat_method p1 = [] then moreGeneral
      else if pat_method p2 = [] then moreSpecific
      else if pat_method p1 = ''GET'' \<and> pat_method p2 = ''HEAD'' then moreGeneral
      else if pat_method p2 = ''GET'' \<and> pat_method p1 = ''HEAD'' then moreSpecific
      else disjoint)"

definition compareSegments :: "segment \<Rightarrow> segment \<Rightarrow> relationship" where
  "compareSegments s1 s2 =
     (if seg_multi s1 \<and> seg_multi s2 then equivalent
      else if seg_multi s1 then moreGeneral
      else if seg_multi s2 then moreSpecific
      else if seg_wild s1 \<and> seg_wild s2 then equivalent
      else if seg_wild s1 then (if seg_s s2 = ''/'' then disjoint else moreGeneral)
      else if seg_wild s2 then (if seg_s s1 = ''/'' then disjoint else moreSpecific)
      else if seg_s s1 = seg_s s2 then equivalent
      else disjoint)"

fun comparePaths :: "segment list \<Rightarrow> segment list \<Rightarrow> relationship" where
  "comparePaths [] [] = equivalent"
| "comparePaths [] (s2 # r2) = disjoint"
| "comparePaths (s1 # r1) [] = disjoint"
| "comparePaths (s1 # r1) (s2 # r2) =
     (if seg_multi s1 \<or> seg_multi s2 then compareSegments s1 s2
      else
        (case compareSegments s1 s2 of
           disjoint \<Rightarrow> disjoint
         | equivalent \<Rightarrow> comparePaths r1 r2
         | rel \<Rightarrow> (if comparePaths r1 r2 = disjoint then disjoint else rel)))"

fun inverseRelationship :: "relationship \<Rightarrow> relationship" where
  "inverseRelationship moreSpecific = moreGeneral"
| "inverseRelationship moreGeneral = moreSpecific"
| "inverseRelationship r = r"

definition combineRelationships :: "relationship \<Rightarrow> relationship \<Rightarrow> relationship" where
  "combineRelationships r1 r2 =
     (if r1 = equivalent then r2
      else if r1 = disjoint \<or> r2 = disjoint then disjoint
      else if r1 = overlaps then overlaps
      else if r2 = equivalent then r1
      else if r2 = inverseRelationship r1 then overlaps
      else r2)"

definition comparePathsAndMethods :: "pattern \<Rightarrow> pattern \<Rightarrow> relationship" where
  "comparePathsAndMethods p1 p2 =
     combineRelationships (compareMethods p1 p2)
       (comparePaths (pat_segments p1) (pat_segments p2))"

definition conflictsWith :: "pattern \<Rightarrow> pattern \<Rightarrow> bool" where
  "conflictsWith p1 p2 =
     (if pat_host p1 \<noteq> pat_host p2 then False
      else (let rel = comparePathsAndMethods p1 p2 in rel = equivalent \<or> rel = overlaps))"

section \<open>Candidates for a conflict\<close>

text \<open>
  Modelled from the spec: \<open>possiblyConflictingPatterns\<close> is not part of the sources at
  hand. The candidates for a new pattern are every pattern of the multi list, and every
  indexed pattern that, at each position where the new pattern has a literal, is in the
  bucket of that literal or in the bucket of the wildcards of that position. The
  function given is applied to the candidates one after the other and the first error
  is returned.
\<close>

definition literalPositions :: "pattern \<Rightarrow> (nat \<times> segment) list" where
  "literalPositions pat = filter (\<lambda>(i, sg). \<not> seg_wild sg) (enumerate 0 (pat_segments pat))"

definition indexedPatterns :: "(routingIndexKey \<times> pattern list) list \<Rightarrow> pattern list" where
  "indexedPatterns m = remdups (concat (map snd m))"

definition candidates :: "routingIndex \<Rightarrow> pattern \<Rightarrow> pattern list" where
  "candidates idx pat =
     idx_multis idx @
     filter
       (\<lambda>q. list_all
               (\<lambda>(i, sg). q \<in> set (bucket (idx_segments idx) (i, seg_s sg)) \<or>
                           q \<in> set (bucket (idx_segments idx) (i, [])))
               (literalPositions pat))
       (indexedPatterns (idx_segments idx))"

fun firstError :: "(pattern \<Rightarrow> 'e option) \<Rightarrow> pattern list \<Rightarrow> 'e option" where
  "firstError f [] = None"
| "firstError f (p # ps) = (case f p of Some e \<Rightarrow> Some e | None \<Rightarrow> firstError f ps)"

definition possiblyConflictingPatterns ::
  "routingIndex \<Rightarrow> pattern \<Rightarrow> (pattern \<Rightarrow> 'e option) \<Rightarrow> 'e option" where
  "possiblyConflictingPatterns idx pat f = firstError f (candidates idx pat)"

section \<open>The routing tree\<close>

text \<open>
  Modelled from the spec: the routing tree (\<open>addPattern\<close>, \<open>match\<close> and
  \<open>matchingMethods\<close> of the routing node) is not part of the sources at hand. The tree
  is the trie the specification describes: the first level branches on the host, the
  second on the method, the levels below on the path segments, with a child per literal,
  the child of key \<open>/\<close> for \<open>{$}\<close>, a separate slot for the single wildcard and one
  for the multi wildcard; a node at which a pattern ends holds the pattern and its
  handler. Patterns without host, and without method, are under the key \<open>""\<close>.
\<close>

definition emptyNode :: routingNode where
  "emptyNode = RoutingNode None NilInterface [] None None"

definition findChild :: "routingNode \<Rightarrow> string \<Rightarrow> routingNode option" where
  "findChild n key = map_of (children n) key"

definition childOrEmpty :: "routingNode \<Rightarrow> string \<Rightarrow> routingNode" where
  "childOrEmpty n key = (case findChild n key of None \<Rightarrow> emptyNode | Some c \<Rightarrow> c)"

definition setChild :: "routingNode \<Rightarrow> string \<Rightarrow> routingNode \<Rightarrow> routingNode" where
  "setChild n key c =
     RoutingNode (node_pattern n) (node_handler n) (AList.update key c (children n))
       (wildChild n) (multiChild n)"

definition wildOrEmpty :: "routingNode \<Rightarrow> routingNode" where
  "wildOrEmpty n = (case wildChild n of None \<Rightarrow> emptyNode | Some c \<Rightarrow> c)"

fun addSegments :: "routingNode \<Rightarrow> segment list \<Rightarrow> pattern \<Rightarrow> handler \<Rightarrow> routingNode" where
  "addSegments n [] p h = RoutingNode (Some p) h (children n) (wildChild n) (multiChild n)"
| "addSegments n (seg # segs) p h =
     (if seg_multi seg then
        RoutingNode (node_pattern n) (node_handler n) (children n) (wildChild n)
          (Some (RoutingNode (Some p) h [] None None))
      else if seg_wild seg then
        RoutingNode (node_pattern n) (node_handler n) (children n)
          (Some (addSegments (wildOrEmpty n) segs p h)) (multiChild n)
      else setChild n (seg_s seg) (addSegments (childOrEmpty n (seg_s seg)) segs p h))"

definition routingNode_addPattern :: "routingNode \<Rightarrow> pattern \<Rightarrow> handler \<Rightarrow> routingNode" where
  "routingNode_addPattern root p h =
     (let hostNode = childOrEmpty root (pat_host p);
          methodNode = childOrEmpty hostNode (pat_method p)
      in setChild root (pat_host p)
           (setChild hostNode (pat_method p) (addSegments methodNode (pat_segments p) p h)))"

text \<open>
  The first segment of a path and the rest of the path: the path \<open>/\<close> alone is the
  segment \<open>/\<close> (the end of a path with a trailing slash); otherwise the segment is the
  text between the leading slash and the next one, unescaped.
\<close>

definition firstSegment :: "string \<Rightarrow> string \<times> string" where
  "firstSegment path =
     (if path = ''/'' then (''/'', [])
      else (pathUnescape (takeWhile (\<lambda>c. c \<noteq> CHR ''/'') (tl path)),
            dropWhile (\<lambda>c. c \<noteq> CHR ''/'') (tl path)))"

lemma firstSegment_shorter [termination_simp]:
  "path \<noteq> [] \<Longrightarrow> length (snd (firstSegment path)) < length path"
proof -
  assume "path \<noteq> []"
  then have "length (dropWhile (\<lambda>c. c \<noteq> CHR ''/'') (tl path)) < length path"
    using length_dropWhile_le [of "\<lambda>c. c \<noteq> CHR ''/''" "tl path"]
    by (cases path) auto
  then show ?thesis
    by (simp add: firstSegment_def)
qed

text \<open>
  Matching a path below a method node: a literal child is preferred, then the single
  wildcard (which does not match the end-of-path segment \<open>/\<close>), then the multi wildcard,
  which takes the rest of the path. A named wildcard records what it matched.
\<close>

definition multiMatches :: "routingNode \<Rightarrow> string \<Rightarrow> string list \<Rightarrow> string list" where
  "multiMatches c path matches =
     (case node_pattern c of
        None \<Rightarrow> matches
      | Some p \<Rightarrow>
          (case lastSegment p of
             None \<Rightarrow> matches
           | Some ls \<Rightarrow>
               if seg_s ls \<noteq> [] then matches @ [pathUnescape (tl path)] else matches))"

function matchPath ::
  "routingNode \<Rightarrow> string \<Rightarrow> string list \<Rightarrow> (routingNode \<times> string list) option" where
  "matchPath n path matches =
     (if path = [] then
        (if node_pattern n = None then None else Some (n, matches))
      else
        (case (case findChild n (fst (firstSegment path)) of
                 None \<Rightarrow> None
               | Some c \<Rightarrow> matchPath c (snd (firstSegment path)) matches) of
           Some r \<Rightarrow> Some r
         | None \<Rightarrow>
             (case (if fst (firstSegment path) \<noteq> ''/'' then
                      (case wildChild n of
                         None \<Rightarrow> None
                       | Some c \<Rightarrow>
                           matchPath c (snd (firstSegment path))
                             (matches @ [fst (firstSegment path)]))
                    else None) of
                Some r \<Rightarrow> Some r
              | None \<Rightarrow>
                  (case multiChild n of
                     None \<Rightarrow> None
                   | Some c \<Rightarrow> Some (c, multiMatches c path matches)))))"
  by pat_completeness auto
termination
  by (relation "measure (\<lambda>(n, path, matches). length path)")
     (auto simp: firstSegment_shorter)

declare matchPath.simps [simp del]

definition matchMethodAndPath ::
  "routingNode option \<Rightarrow> string \<Rightarrow> string \<Rightarrow> (routingNode \<times> string list) option" where
  "matchMethodAndPath hostNode method path =
     (case hostNode of
        None \<Rightarrow> None
      | Some n \<Rightarrow>
          (case (case findChild n method of None \<Rightarrow> None | Some c \<Rightarrow> matchPath c path []) of
             Some r \<Rightarrow> Some r
           | None \<Rightarrow>
               (case (if method = ''HEAD'' then
                        (case findChild n ''GET'' of
                           None \<Rightarrow> None
                         | Some c \<Rightarrow> matchPath c path [])
                      else None) of
                  Some r \<Rightarrow> Some r
                | None \<Rightarrow>
                    (case findChild n [] of None \<Rightarrow> None | Some c \<Rightarrow> matchPath c path []))))"

definition routingNode_match ::
  "routingNode \<Rightarrow> string \<Rightarrow> string \<Rightarrow> string \<Rightarrow> (routingNode \<times> string list) option" where
  "routingNode_match root host method path =
     (case (if host \<noteq> [] then matchMethodAndPath (findChild root host) method path else None) of
        Some r \<Rightarrow> Some r
      | None \<Rightarrow> matchMethodAndPath (findChild root []) method path)"

text \<open>
  The auxiliary query: every method that has a pattern matching the host and the path,
  under the host's node and under the node of the patterns without host. Patterns
  without method add nothing, and \<open>GET\<close> stands for \<open>HEAD\<close> as well.
\<close>

definition matchingMethodsPath :: "routingNode option \<Rightarrow> string \<Rightarrow> string set \<Rightarrow> string set" where
  "matchingMethodsPath hostNode path methodSet =
     (case hostNode of
        None \<Rightarrow> methodSet
      | Some n \<Rightarrow>
          methodSet \<union>
          set (map fst (filter (\<lambda>(m, c). m \<noteq> [] \<and> matchPath c path [] \<noteq> None) (children n))))"

definition routingNode_matchingMethods ::
  "routingNode \<Rightarrow> string \<Rightarrow> string \<Rightarrow> string set \<Rightarrow> string set" where
  "routingNode_matchingMethods root host path methodSet =
     (let ms1 = (if host \<noteq> [] then matchingMethodsPath (findChild root host) path methodSet
                 else methodSet);
          ms2 = matchingMethodsPath (findChild root []) path ms1
      in if ''GET'' \<in> ms2 then insert ''HEAD'' ms2 else ms2)"

section \<open>ServeMux\<close>

record ServeMux =
  mux_tree :: routingNode
  mux_index :: routingIndex

definition NewServeMux :: ServeMux where
  "NewServeMux = \<lparr>mux_tree = emptyNode, mux_index = emptyIndex\<rparr>"

text \<open>
  The standard library's \<open>path.Clean\<close>: empty and \<open>.\<close> elements are dropped, an inner
  \<open>..\<close> removes the element before it, a \<open>..\<close> at the root is dropped, and the empty
  result is \<open>.\<close> (or \<open>/\<close> for a rooted path).
\<close>

fun cleanElems :: "bool \<Rightarrow> string list \<Rightarrow> string list \<Rightarrow> string list" where
  "cleanElems rooted [] acc = rev acc"
| "cleanElems rooted (e # es) acc =
     (if e = [] \<or> e = ''.'' then cleanElems rooted es acc
      else if e = ''..'' then
        (case acc of
           [] \<Rightarrow> cleanElems rooted es (if rooted then [] else [''..''])
         | a # as \<Rightarrow> cleanElems rooted es (if a = ''..'' then e # acc else as))
      else cleanElems rooted es (e # acc))"

definition pathClean :: "string \<Rightarrow> string" where
  "pathClean p =
     (if p = [] then ''.''
      else
        (let rooted = (hd p = CHR ''/'');
             body = joinSlash (cleanElems rooted (splitOn (CHR ''/'') p) [])
         in if rooted then (if body = [] then ''/'' else body)
            else (if body = [] then ''.'' else tl body)))"

definition cleanPath :: "string \<Rightarrow> string" where
  "cleanPath p0 =
     (if p0 = [] then ''/''
      else
        (let p = (if hd p0 \<noteq> CHR ''/'' then CHR ''/'' # p0 else p0);
             np = pathClean p
         in if last p = CHR ''/'' \<and> np \<noteq> ''/'' then
              (if length p = length np + 1 \<and> take (length np) p = np then p
               else np @ ''/'')
            else np))"

text \<open>
  \<open>stripHostPort\<close>; the standard library's \<open>net.SplitHostPort\<close> is a parameter, giving
  the host part or \<open>None\<close> for an error.
\<close>

definition stripHostPort :: "(string \<Rightarrow> string option) \<Rightarrow> string \<Rightarrow> string" where
  "stripHostPort splitHostPort h =
     (if CHR '':'' \<notin> set h then h
      else (case splitHostPort h of None \<Rightarrow> h | Some host \<Rightarrow> host))"

record URL =
  url_Host :: string
  url_Path :: string
  url_RawQuery :: string

text \<open>
  The fields of a request that \<open>findHandler\<close> reads; \<open>req_EscapedPath\<close> is the value
  of \<open>r.URL.EscapedPath()\<close>.
\<close>

record request =
  req_Method :: string
  req_Host :: string
  req_URL :: URL
  req_EscapedPath :: string

text \<open>
  \<open>matchOrRedirect\<close>: the node and the wildcard matches, or the URL to redirect to. A
  panic of \<open>exactMatch\<close> is the result \<open>None\<close>.
\<close>

definition matchOrRedirect ::
  "ServeMux \<Rightarrow> string \<Rightarrow> string \<Rightarrow> string \<Rightarrow> URL option \<Rightarrow>
   (routingNode option \<times> string list \<times> URL option) option" where
  "matchOrRedirect mux host method path u =
     (let r = routingNode_match (mux_tree mux) host method path;
          n = map_option fst r;
          matches = (case r of None \<Rightarrow> [] | Some (_, ms) \<Rightarrow> ms)
      in case exactMatch n path of
           None \<Rightarrow> None
         | Some exact \<Rightarrow>
             (case u of
                None \<Rightarrow> Some (n, matches, None)
              | Some url \<Rightarrow>
                  if \<not> exact \<and> \<not> hasSuffixSlash path then
                    (let path2 = path @ ''/'';
                         n2 = map_option fst (routingNode_match (mux_tree mux) host method path2)
                     in case exactMatch n2 path2 of
                          None \<Rightarrow> None
                        | Some exact2 \<Rightarrow>
                            if exact2 then
                              Some (None, [],
                                    Some \<lparr>url_Host = [], url_Path = cleanPath (url_Path url) @ ''/'',
                                          url_RawQuery = url_RawQuery url\<rparr>)
                            else Some (n, matches, None))
                  else Some (n, matches, None)))"

text \<open>
  \<open>ServeMux.matchingMethods\<close>: the method set is a Go map with the methods as keys; the
  result is the sorted list of its keys.
\<close>

definition ServeMux_matchingMethods :: "ServeMux \<Rightarrow> string \<Rightarrow> string \<Rightarrow> string list" where
  "ServeMux_matchingMethods mux host path =
     (let ms = routingNode_matchingMethods (mux_tree mux) host path {};
          ms' = (if \<not> hasSuffixSlash path
                 then routingNode_matchingMethods (mux_tree mux) host (path @ ''/'') ms
                 else ms)
      in sorted_list_of_set ms')"

text \<open>
  What \<open>findHandler\<close> returns as a handler: the handler of a registered pattern, a
  redirect (status 301) to a URL, the method-not-allowed handler with the list for the
  \<open>Allow\<close> header, or the not-found handler.
\<close>

datatype found_handler =
    Registered handler
  | RedirectHandler URL
  | MethodNotAllowed "string list"
  | NotFoundHandler

definition notFoundOrNotAllowed ::
  "ServeMux \<Rightarrow> string \<Rightarrow> string \<Rightarrow> found_handler \<times> string \<times> pattern option \<times> string list" where
  "notFoundOrNotAllowed mux host path =
     (let allowedMethods = ServeMux_matchingMethods mux host path
      in if length allowedMethods > 0 then (MethodNotAllowed allowedMethods, [], None, [])
         else (NotFoundHandler, [], None, []))"

definition foundNode ::
  "ServeMux \<Rightarrow> string \<Rightarrow> string \<Rightarrow> routingNode option \<Rightarrow> string list \<Rightarrow>
   (found_handler \<times> string \<times> pattern option \<times> string list) option" where
  "foundNode mux host path n matches =
     (case n of
        None \<Rightarrow> Some (notFoundOrNotAllowed mux host path)
      | Some nd \<Rightarrow>
          (case node_pattern nd of
             None \<Rightarrow> None
           | Some pat \<Rightarrow> Some (Registered (node_handler nd), pat_str pat, Some pat, matches)))"

definition findHandler ::
  "(string \<Rightarrow> string option) \<Rightarrow> ServeMux \<Rightarrow> request \<Rightarrow>
   (found_handler \<times> string \<times> pattern option \<times> string list) option" where
  "findHandler splitHostPort mux r =
     (let escapedPath = req_EscapedPath r in
      if req_Method r = ''CONNECT'' then
        (case matchOrRedirect mux (url_Host (req_URL r)) (req_Method r) escapedPath
                (Some (req_URL r)) of
           None \<Rightarrow> None
         | Some (_, _, Some u) \<Rightarrow> Some (RedirectHandler u, url_Path u, None, [])
         | Some (_, _, None) \<Rightarrow>
             (case matchOrRedirect mux (req_Host r) (req_Method r) escapedPath None of
                None \<Rightarrow> None
              | Some (n, matches, _) \<Rightarrow>
                  foundNode mux (url_Host (req_URL r)) escapedPath n matches))
      else
        (let host = stripHostPort splitHostPort (req_Host r);
             path = cleanPath escapedPath
         in case matchOrRedirect mux host (req_Method r) path (Some (req_URL r)) of
              None \<Rightarrow> None
            | Some (_, _, Some u) \<Rightarrow> Some (RedirectHandler u, url_Path u, None, [])
            | Some (n, matches, None) \<Rightarrow>
                if path \<noteq> escapedPath then
                  (case n of
                     None \<Rightarrow>
                       Some (RedirectHandler
                               \<lparr>url_Host = [], url_Path = path,
                                url_RawQuery = url_RawQuery (req_URL r)\<rparr>, [], None, [])
                   | Some nd \<Rightarrow>
                       (case node_pattern nd of
                          None \<Rightarrow> None
                        | Some pat \<Rightarrow>
                            Some (RedirectHandler
                                    \<lparr>url_Host = [], url_Path = path,
                                     url_RawQuery = url_RawQuery (req_URL r)\<rparr>,
                                  pat_str pat, None, [])))
                else foundNode mux host path n matches))"

text \<open>
  \<open>registerErr\<close>. The errors it returns are values; the location of the caller
  (\<open>runtime.Caller\<close>) is a parameter, \<open>None\<close> when it is not known. A panic (of
  \<open>routingIndex.addPattern\<close>, on a pattern without segments) is the result \<open>None\<close>.
\<close>

datatype register_error =
    InvalidPattern
  | NilHandler
  | ParsingError string parse_error
  | PatternConflict pattern pattern

definition withLoc :: "pattern \<Rightarrow> string option \<Rightarrow> pattern" where
  "withLoc pat caller =
     pat\<lparr>pat_loc := (case caller of None \<Rightarrow> ''unknown location'' | Some l \<Rightarrow> l)\<rparr>"

definition registerErr ::
  "ServeMux \<Rightarrow> string option \<Rightarrow> string \<Rightarrow> handler \<Rightarrow> (register_error option \<times> ServeMux) option" where
  "registerErr mux caller patstr h =
     (if patstr = [] then Some (Some InvalidPattern, mux)
      else if h = NilInterface then Some (Some NilHandler, mux)
      else if h = HandlerFunc None then Some (Some NilHandler, mux)
      else
        (case parsePattern patstr of
           Inl e \<Rightarrow> Some (Some (ParsingError patstr e), mux)
         | Inr parsed \<Rightarrow>
             (let pat = withLoc parsed caller
              in case possiblyConflictingPatterns (mux_index mux) pat
                        (\<lambda>pat2. if conflictsWith pat pat2
                                 then Some (PatternConflict pat pat2) else None) of
                   Some err \<Rightarrow> Some (Some err, mux)
                 | None \<Rightarrow>
                     (case routingIndex_addPattern (mux_index mux) pat of
                        None \<Rightarrow> None
                      | Some idx' \<Rightarrow>
                          Some (None,
                                \<lparr>mux_tree = routingNode_addPattern (mux_tree mux) pat h,
                                 mux_index = idx'\<rparr>)))))"

section \<open>What a pattern matches\<close>

text \<open>
  Modelled from the spec: the request a pattern matches, as the specification and the
  documentation of \<open>ServeMux\<close> describe it. A pattern without host matches every host,
  a pattern without method every method, and \<open>GET\<close> matches \<open>HEAD\<close> as well. Its
  segments are matched against the path from the left: a literal against an equal
  segment, \<open>{$}\<close> against the end of a path with a trailing slash, a single wildcard
  against any one segment, and a multi wildcard against the whole rest of the path, which
  may be empty. \<open>multiConsumed\<close> is \<open>None\<close> when the segments do not match the path, and
  otherwise the text the multi wildcard has taken (empty when there is none).
\<close>

fun multiConsumed :: "segment list \<Rightarrow> string \<Rightarrow> string option" where
  "multiConsumed [] path = (if path = [] then Some [] else None)"
| "multiConsumed (sg # segs) path =
     (if path = [] then None
      else if seg_multi sg then Some (tl path)
      else if (if seg_wild sg then fst (firstSegment path) \<noteq> ''/''
               else fst (firstSegment path) = seg_s sg)
      then multiConsumed segs (snd (firstSegment path))
      else None)"

definition methodMatches :: "pattern \<Rightarrow> string \<Rightarrow> bool" where
  "methodMatches p method =
     (pat_method p = [] \<or> pat_method p = method \<or>
      (pat_method p = ''GET'' \<and> method = ''HEAD''))"

definition hostMatches :: "pattern \<Rightarrow> string \<Rightarrow> bool" where
  "hostMatches p host = (pat_host p = [] \<or> pat_host p = host)"

definition patternMatches :: "pattern \<Rightarrow> string \<Rightarrow> string \<Rightarrow> string \<Rightarrow> bool" where
  "patternMatches p host method path =
     (hostMatches p host \<and> methodMatches p method \<and>
      multiConsumed (pat_segments p) path \<noteq> None)"

text \<open>A multi wildcard is the last segment of its pattern, if it has one.\<close>

fun multiOnlyLast :: "segment list \<Rightarrow> bool" where
  "multiOnlyLast [] = True"
| "multiOnlyLast [sg] = True"
| "multiOnlyLast (sg # segs) = (\<not> seg_multi sg \<and> multiOnlyLast segs)"

text \<open>The handlers that \<open>registerErr\<close> rejects as nil.\<close>

definition nilHandler :: "handler \<Rightarrow> bool" where
  "nilHandler h = (h = NilInterface \<or> h = HandlerFunc None)"

text \<open>\<open>strings.HasPrefix(path, "/")\<close>: the path is rooted.\<close>

definition hasPrefixSlash :: "string \<Rightarrow> bool" where
  "hasPrefixSlash p = (case p of [] \<Rightarrow> False | c # _ \<Rightarrow> c = CHR ''/'')"

section \<open>The mux with the single pattern /images/\<close>

text \<open>
  The state after \<open>/images/\<close> has been registered on a new \<open>ServeMux\<close> with the
  handler \<open>h\<close> from the location \<open>caller\<close>: the pattern, the node that holds it, and
  the mux.
\<close>

definition imagesPattern :: "string option \<Rightarrow> pattern" where
  "imagesPattern caller =
     \<lparr>pat_str = ''/images/'', pat_method = [], pat_host = [],
      pat_segments = [\<lparr>seg_s = ''images'', seg_wild = False, seg_multi = False\<rparr>,
                      \<lparr>seg_s = [], seg_wild = True, seg_multi = True\<rparr>],
      pat_loc = (case caller of None \<Rightarrow> ''unknown location'' | Some l \<Rightarrow> l)\<rparr>"

definition imagesNode :: "string option \<Rightarrow> handler \<Rightarrow> routingNode" where
  "imagesNode caller h = RoutingNode (Some (imagesPattern caller)) h [] None None"

definition imagesMux :: "string option \<Rightarrow> handler \<Rightarrow> ServeMux" where
  "imagesMux caller h =
     \<lparr>mux_tree =
        RoutingNode None NilInterface
          [([], RoutingNode None NilInterface
                  [([], RoutingNode None NilInterface
                          [(''images'',
                            RoutingNode None NilInterface [] None (Some (imagesNode caller h)))]
                          None None)]
                  None None)]
          None None,
      mux_index = \<lparr>idx_segments = [], idx_multis = [imagesPattern caller]\<rparr>\<rparr>"

section \<open>Notions used in the statements about the tree and the index\<close>

text \<open>The node that holds a pattern and its handler, without children.\<close>

definition leafNode :: "pattern \<Rightarrow> handler \<Rightarrow> routingNode" where
  "leafNode p h = RoutingNode (Some p) h [] None None"

text \<open>The patterns that occur anywhere in the routing index.\<close>

definition indexPatterns :: "routingIndex \<Rightarrow> pattern set" where
  "indexPatterns idx = set (idx_multis idx) \<union> set (concat (map snd (idx_segments idx)))"

section \<open>The patterns a routing tree holds\<close>

text \<open>
  A place below a method node is the list of steps that leads to it: a literal or the
  single wildcard for each segment. \<open>holds R h m pre n\<close> says that every pattern
  stored in the subtree \<open>n\<close>, which is at the place \<open>pre\<close> below the node of host \<open>h\<close>
  and method \<open>m\<close>, is a pattern of \<open>R\<close> with this host and method and sits at the place
  its own segments describe: a pattern at a node has the segments that lead to the
  node, and the pattern in a multi slot has them followed by its multi wildcard.
\<close>

datatype step = Lit string | Wild

definition segStep :: "segment \<Rightarrow> step" where
  "segStep sg = (if seg_wild sg then Wild else Lit (seg_s sg))"

definition leafAt :: "pattern set \<Rightarrow> string \<Rightarrow> string \<Rightarrow> step list \<Rightarrow> pattern \<Rightarrow> bool" where
  "leafAt R h m pre p =
     (p \<in> R \<and> pat_host p = h \<and> pat_method p = m \<and>
      map segStep (pat_segments p) = pre \<and> (\<forall>sg \<in> set (pat_segments p). \<not> seg_multi sg))"

definition multiAt :: "pattern set \<Rightarrow> string \<Rightarrow> string \<Rightarrow> step list \<Rightarrow> pattern \<Rightarrow> bool" where
  "multiAt R h m pre p =
     (p \<in> R \<and> pat_host p = h \<and> pat_method p = m \<and>
      (\<exists>segs ms rest. pat_segments p = segs @ ms # rest \<and> seg_multi ms \<and>
          map segStep segs = pre \<and> (\<forall>sg \<in> set segs. \<not> seg_multi sg)))"

inductive holds :: "pattern set \<Rightarrow> string \<Rightarrow> string \<Rightarrow> step list \<Rightarrow> routingNode \<Rightarrow> bool" where
  holdsI:
    "(\<forall>p. pat = Some p \<longrightarrow> leafAt R h m pre p) \<Longrightarrow>
     (\<forall>k c. (k, c) \<in> set cs \<longrightarrow> holds R h m (pre @ [Lit k]) c) \<Longrightarrow>
     (\<forall>c. wc = Some c \<longrightarrow> holds R h m (pre @ [Wild]) c) \<Longrightarrow>
     (\<forall>c. mc = Some c \<longrightarrow> (\<exists>p. node_pattern c = Some p \<and> multiAt R h m pre p)) \<Longrightarrow>
     holds R h m pre (RoutingNode pat hdl cs wc mc)"

definition treeHolds :: "pattern set \<Rightarrow> routingNode \<Rightarrow> bool" where
  "treeHolds R root =
     (\<forall>h hn. (h, hn) \<in> set (children root) \<longrightarrow>
        (\<forall>m mn. (m, mn) \<in> set (children hn) \<longrightarrow> holds R h m [] mn))"

text \<open>
  \<open>registered R mux\<close>: the mux is a new \<open>ServeMux\<close> on which the patterns of \<open>R\<close>, and
  no others, have been registered with success.
\<close>

inductive registered :: "pattern set \<Rightarrow> ServeMux \<Rightarrow> bool" where
  registered_new: "registered {} NewServeMux"
| registered_step:
    "registered R mux \<Longrightarrow> parsePattern patstr = Inr parsed \<Longrightarrow>
     registerErr mux caller patstr h = Some (None, mux') \<Longrightarrow>
     registered (insert (withLoc parsed caller) R) mux'"

text \<open>A pattern matches a host and a path, whatever the method.\<close>

definition hostPathMatches :: "pattern \<Rightarrow> string \<Rightarrow> string \<Rightarrow> bool" where
  "hostPathMatches p host path =
     (hostMatches p host \<and> multiConsumed (pat_segments p) path \<noteq> None)"

section \<open>The mux with the single pattern GET /x/\<close>

text \<open>
  The state after \<open>GET /x/\<close> has been registered on a new \<open>ServeMux\<close> with the
  handler \<open>OtherHandler 0\<close> from an unknown location.
\<close>

definition getXSlashPattern :: pattern where
  "getXSlashPattern =
     \<lparr>pat_str = ''GET /x/'', pat_method = ''GET'', pat_host = [],
      pat_segments = [\<lparr>seg_s = ''x'', seg_wild = False, seg_multi = False\<rparr>,
                      \<lparr>seg_s = [], seg_wild = True, seg_multi = True\<rparr>],
      pat_loc = ''unknown location''\<rparr>"

definition getXSlashMux :: ServeMux where
  "getXSlashMux =
     \<lparr>mux_tree =
        RoutingNode None NilInterface
          [([], RoutingNode None NilInterface
                  [(''GET'', RoutingNode None NilInterface
                          [(''x'',
                            RoutingNode None NilInterface [] None
                              (Some (leafNode getXSlashPattern (OtherHandler 0))))]
                          None None)]
                  None None)]
          None None,
      mux_index = \<lparr>idx_segments = [], idx_multis = [getXSlashPattern]\<rparr>\<rparr>"

section \<open>The routing index keeps its shape\<close>

lemma bucket_update:
  "bucket (AList.update k v m) key = (if key = k then v else bucket m key)"
  by (simp add: bucket_def update_conv)

lemma bucket_addSegmentKeys:
  "set (bucket (addSegmentKeys m pat pos segs) key) =
     set (bucket m key) \<union>
     (if \<exists>i < length segs. key = segmentKey (pos + i) (segs ! i) then {pat} else {})"
proof (induction segs arbitrary: m pos)
  case Nil
  then show ?case by simp
next
  case (Cons seg segs)
  have ex: "(\<exists>i < length (seg # segs). key = segmentKey (pos + i) ((seg # segs) ! i)) \<longleftrightarrow>
        key = segmentKey pos seg \<or> (\<exists>i < length segs. key = segmentKey (Suc pos + i) (segs ! i))"
    by (auto simp: less_Suc_eq_0_disj)
  show ?case
    unfolding ex addSegmentKeys.simps Cons.IH
    by (auto simp: bucket_update)
qed

lemma indexedUnder_iff:
  "indexedUnder p key \<longleftrightarrow>
     (\<exists>i < length (pat_segments p). key = segmentKey (0 + i) (pat_segments p ! i))"
  by (auto simp: indexedUnder_def segmentKey_def)

lemma indexShape_empty: "indexShape {} emptyIndex"
  by (simp add: indexShape_def emptyIndex_def bucket_def)

lemma indexShape_addPattern:
  assumes "indexShape R idx" and "pat_segments pat \<noteq> []"
  shows "\<exists>idx'. routingIndex_addPattern idx pat = Some idx' \<and> indexShape (insert pat R) idx'"
proof -
  from assms(2) obtain ls where ls: "lastSegment pat = Some ls"
    by (cases "pat_segments pat") (auto simp: lastSegment_def)
  show ?thesis
  proof (cases "seg_multi ls")
    case True
    then have em: "endsInMulti pat" by (simp add: endsInMulti_def ls)
    from assms(1) em show ?thesis
      by (auto simp: routingIndex_addPattern_def ls True indexShape_def)
  next
    case False
    then have em: "\<not> endsInMulti pat" by (simp add: endsInMulti_def ls)
    from assms(1) em show ?thesis
      by (auto simp: routingIndex_addPattern_def ls False indexShape_def
            bucket_addSegmentKeys indexedUnder_iff)
  qed
qed

text \<open>
  Claim C9. The empty index has the shape (for no pattern), and every call of
  \<open>routingIndex.addPattern\<close> on a pattern with at least one segment returns and keeps
  the shape, now for the patterns added so far and the new one: multi-ending patterns
  only in \<open>multis\<close>, every other pattern in the buckets \<open>(position, literal)\<close> of its
  literal segments and \<open>(position, "")\<close> of its wildcard segments, and in no other.
\<close>

theorem routingIndex_addPattern_shape:
  "indexShape {} emptyIndex \<and>
   (indexShape R idx \<and> pat_segments pat \<noteq> [] \<longrightarrow>
      (\<exists>idx'. routingIndex_addPattern idx pat = Some idx' \<and> indexShape (insert pat R) idx'))"
  using indexShape_empty indexShape_addPattern by blast

theorem routingIndex_addPattern_shape_witness:
  "\<exists>idx'. routingIndex_addPattern emptyIndex
       \<lparr>pat_str = ''/a/{b}'', pat_method = [], pat_host = [],
        pat_segments = [\<lparr>seg_s = ''a'', seg_wild = False, seg_multi = False\<rparr>,
                        \<lparr>seg_s = ''b'', seg_wild = True, seg_multi = False\<rparr>],
        pat_loc = []\<rparr> = Some idx' \<and>
     indexShape {\<lparr>pat_str = ''/a/{b}'', pat_method = [], pat_host = [],
        pat_segments = [\<lparr>seg_s = ''a'', seg_wild = False, seg_multi = False\<rparr>,
                        \<lparr>seg_s = ''b'', seg_wild = True, seg_multi = False\<rparr>],
        pat_loc = []\<rparr>} idx'"
  using routingIndex_addPattern_shape [of "{}" emptyIndex
       "\<lparr>pat_str = ''/a/{b}'', pat_method = [], pat_host = [],
        pat_segments = [\<lparr>seg_s = ''a'', seg_wild = False, seg_multi = False\<rparr>,
                        \<lparr>seg_s = ''b'', seg_wild = True, seg_multi = False\<rparr>],
        pat_loc = []\<rparr>"]
  by simp

section \<open>Exact matches\<close>

lemma countSlash_simps [simp]:
  "countSlash [] = 0"
  "countSlash (c # cs) = (if c = CHR ''/'' then Suc (countSlash cs) else countSlash cs)"
  "countSlash (xs @ ys) = countSlash xs + countSlash ys"
  by (induction xs) (auto simp: countSlash_def)

lemma countSlash_takeWhile [simp]: "countSlash (takeWhile (\<lambda>c. c \<noteq> CHR ''/'') xs) = 0"
  by (induction xs) auto

lemma dropWhile_slash_cases:
  "dropWhile (\<lambda>c. c \<noteq> CHR ''/'') xs = [] \<or>
   (\<exists>ys. dropWhile (\<lambda>c. c \<noteq> CHR ''/'') xs = CHR ''/'' # ys)"
  by (induction xs) auto

lemma multiConsumed_decompose:
  "multiOnlyLast segs \<Longrightarrow> hasPrefixSlash path \<Longrightarrow>
   multiConsumed segs path = Some r \<Longrightarrow>
   (if seg_multi (last segs)
    then \<exists>pre. path = pre @ CHR ''/'' # r \<and> Suc (countSlash pre) = length segs
    else r = [])"
proof (induction segs arbitrary: path)
  case Nil
  then show ?case by (auto simp: hasPrefixSlash_def split: if_splits)
next
  case (Cons sg segs)
  obtain body where path: "path = CHR ''/'' # body"
    using Cons.prems(2) by (cases path) (auto simp: hasPrefixSlash_def)
  show ?case
  proof (cases "seg_multi sg")
    case True
    with Cons.prems(1) have "segs = []" by (cases segs) auto
    with True Cons.prems(3) path show ?thesis by auto
  next
    case False
    let ?rest = "snd (firstSegment path)"
    from False Cons.prems(3) path have mc: "multiConsumed segs ?rest = Some r"
      by (auto split: if_splits)
    from Cons.prems(1) have mol: "multiOnlyLast segs" by (cases segs) auto
    show ?thesis
    proof (cases segs)
      case Nil
      with mc False show ?thesis by (auto split: if_splits)
    next
      case (Cons sg' segs')
      with mc have ne: "?rest \<noteq> []" by (auto split: if_splits)
      then have bne: "path \<noteq> ''/''" by (auto simp: firstSegment_def)
      then have rest: "?rest = dropWhile (\<lambda>c. c \<noteq> CHR ''/'') body"
        by (simp add: firstSegment_def path)
      with ne dropWhile_slash_cases [of body] have hd: "hasPrefixSlash ?rest"
        by (auto simp: hasPrefixSlash_def)
      have IH: "if seg_multi (last segs)
        then \<exists>pre. ?rest = pre @ CHR ''/'' # r \<and> Suc (countSlash pre) = length segs
        else r = []"
        by (rule Cons.IH [OF mol hd mc])
      have split: "path = (CHR ''/'' # takeWhile (\<lambda>c. c \<noteq> CHR ''/'') body) @ ?rest"
        unfolding rest by (simp add: path)
      show ?thesis
      proof (cases "seg_multi (last segs)")
        case True
        with IH obtain pre where pre: "?rest = pre @ CHR ''/'' # r" "Suc (countSlash pre) = length segs"
          by auto
        have "path = ((CHR ''/'' # takeWhile (\<lambda>c. c \<noteq> CHR ''/'') body) @ pre) @ CHR ''/'' # r"
          using split pre(1) by simp
        moreover have "Suc (countSlash ((CHR ''/'' # takeWhile (\<lambda>c. c \<noteq> CHR ''/'') body) @ pre)) = length (sg # segs)"
          using pre(2) by simp
        ultimately show ?thesis using True Cons by (metis last_ConsR list.distinct(1))
      next
        case False
        with IH Cons show ?thesis by simp
      qed
    qed
  qed
qed

lemma exactMatch_concrete:
  "node_pattern n = Some pat \<Longrightarrow> pat_segments pat \<noteq> [] \<Longrightarrow>
   exactMatch (Some n) path =
     Some (\<not> seg_multi (last (pat_segments pat)) \<or>
           (hasSuffixSlash path \<and> length (pat_segments pat) = countSlash path))"
  by (cases "pat_segments pat") (auto simp: exactMatch_def lastSegment_def hasSuffixSlash_def)

lemma exactMatch_multiConsumed:
  assumes "node_pattern n = Some pat" and "multiOnlyLast (pat_segments pat)"
    and "hasPrefixSlash path" and "multiConsumed (pat_segments pat) path = Some r"
  shows "exactMatch (Some n) path = Some (r = [])"
proof -
  from assms have a: "node_pattern n = Some pat \<and> multiOnlyLast (pat_segments pat) \<and>
    hasPrefixSlash path \<and> multiConsumed (pat_segments pat) path = Some r"
    by simp
  from a have segs: "pat_segments pat \<noteq> []"
    by (cases "pat_segments pat") (auto simp: hasPrefixSlash_def split: if_splits)
  have ex: "exactMatch (Some n) path =
        Some (\<not> seg_multi (last (pat_segments pat)) \<or>
              (hasSuffixSlash path \<and> length (pat_segments pat) = countSlash path))"
    using a segs by (simp add: exactMatch_concrete)
  have dec: "if seg_multi (last (pat_segments pat))
    then \<exists>pre. path = pre @ CHR ''/'' # r \<and> Suc (countSlash pre) = length (pat_segments pat)
    else r = []"
    using a by (intro multiConsumed_decompose) auto
  show ?thesis
  proof (cases "seg_multi (last (pat_segments pat))")
    case False
    with dec ex show ?thesis by simp
  next
    case True
    with dec obtain pre where pre: "path = pre @ CHR ''/'' # r"
      "Suc (countSlash pre) = length (pat_segments pat)" by auto
    have "(hasSuffixSlash path \<and> length (pat_segments pat) = countSlash path) \<longleftrightarrow> r = []"
    proof (cases "r = []")
      case True
      with pre show ?thesis by (simp add: hasSuffixSlash_def)
    next
      case False
      then have lr: "last path = last r" using pre(1) by simp
      show ?thesis
      proof (cases "last r = CHR ''/''")
        case True
        with False have "countSlash r > 0"
          by (metis append_butlast_last_id countSlash_simps(2,3) add_gr_0 zero_less_Suc)
        with pre False show ?thesis by (auto simp: hasSuffixSlash_def)
      next
        case False
        with lr \<open>r \<noteq> []\<close> show ?thesis by (auto simp: hasSuffixSlash_def)
      qed
    qed
    with ex True show ?thesis by simp
  qed
qed

section \<open>Registration\<close>

lemmas parse_defs = parsePattern_def isSpaceTab_def validMethod_def isToken_def isTokenChar_def
  isLetter_def isDigit_def pathUnescape_def hasSuffixDots_def isValidWildcardName_def

lemmas reg_defs = registerErr_def possiblyConflictingPatterns_def candidates_def
  literalPositions_def indexedPatterns_def bucket_def conflictsWith_def comparePathsAndMethods_def
  compareMethods_def compareSegments_def combineRelationships_def routingIndex_addPattern_def
  lastSegment_def segmentKey_def routingNode_addPattern_def childOrEmpty_def findChild_def
  setChild_def wildOrEmpty_def emptyNode_def emptyIndex_def NewServeMux_def Let_def withLoc_def

lemmas match_defs = routingNode_match_def matchMethodAndPath_def matchPath.simps firstSegment_def
  multiMatches_def

lemma firstError_Some:
  "firstError f ps = Some e \<Longrightarrow> \<exists>p \<in> set ps. f p = Some e"
  by (induction ps) (auto split: option.splits)

lemma firstError_None:
  "firstError f ps = None \<longleftrightarrow> (\<forall>p \<in> set ps. f p = None)"
  by (induction ps) (auto split: option.splits)

text \<open>
  Claim C6. When \<open>registerErr\<close> returns an error, the routing tree and the routing
  index are as they were before the call. The state changes only when no error is
  returned, the pattern has parsed, and no candidate of the routing index conflicts with
  it. An empty pattern, a nil handler, a pattern that does not parse and a conflict with
  a candidate each make \<open>registerErr\<close> return an error and leave tree and index alone.
\<close>

theorem registerErr_atomic:
  "(registerErr mux caller patstr h = Some (Some err, mux') \<longrightarrow> mux' = mux) \<and>
   (registerErr mux caller patstr h = Some (res, mux') \<and> mux' \<noteq> mux \<longrightarrow>
      res = None \<and>
      (\<exists>parsed. parsePattern patstr = Inr parsed \<and>
         (\<forall>pat2 \<in> set (candidates (mux_index mux) (withLoc parsed caller)).
             \<not> conflictsWith (withLoc parsed caller) pat2))) \<and>
   (patstr = [] \<or> nilHandler h \<or> (\<exists>e. parsePattern patstr = Inl e) \<or>
    (\<exists>parsed. parsePattern patstr = Inr parsed \<and>
       (\<exists>pat2 \<in> set (candidates (mux_index mux) (withLoc parsed caller)).
           conflictsWith (withLoc parsed caller) pat2)) \<longrightarrow>
      (\<exists>e. registerErr mux caller patstr h = Some (Some e, mux)))"
proof (intro conjI impI)
  assume "registerErr mux caller patstr h = Some (Some err, mux')"
  then show "mux' = mux"
    by (auto simp: registerErr_def Let_def split: if_splits sum.splits option.splits)
next
  assume a: "registerErr mux caller patstr h = Some (res, mux') \<and> mux' \<noteq> mux"
  then show "res = None"
    by (auto simp: registerErr_def Let_def split: if_splits sum.splits option.splits)
  from a show "\<exists>parsed. parsePattern patstr = Inr parsed \<and>
         (\<forall>pat2 \<in> set (candidates (mux_index mux) (withLoc parsed caller)).
             \<not> conflictsWith (withLoc parsed caller) pat2)"
    by (auto simp: registerErr_def Let_def possiblyConflictingPatterns_def
          firstError_None split: if_splits sum.splits option.splits)
next
  assume a: "patstr = [] \<or> nilHandler h \<or> (\<exists>e. parsePattern patstr = Inl e) \<or>
    (\<exists>parsed. parsePattern patstr = Inr parsed \<and>
       (\<exists>pat2 \<in> set (candidates (mux_index mux) (withLoc parsed caller)).
           conflictsWith (withLoc parsed caller) pat2))"
  show "\<exists>e. registerErr mux caller patstr h = Some (Some e, mux)"
  proof (cases "patstr = [] \<or> nilHandler h \<or> (\<exists>e. parsePattern patstr = Inl e)")
    case True
    then show ?thesis
      by (auto simp: registerErr_def nilHandler_def)
  next
    case False
    with a obtain parsed pat2 where p: "parsePattern patstr = Inr parsed"
      "pat2 \<in> set (candidates (mux_index mux) (withLoc parsed caller))"
      "conflictsWith (withLoc parsed caller) pat2" by auto
    let ?f = "\<lambda>pat2. if conflictsWith (withLoc parsed caller) pat2
                 then Some (PatternConflict (withLoc parsed caller) pat2) else None"
    have "firstError ?f (candidates (mux_index mux) (withLoc parsed caller)) \<noteq> None"
      using p(2,3) by (auto simp: firstError_None)
    then obtain e where "firstError ?f (candidates (mux_index mux) (withLoc parsed caller)) = Some e"
      by auto
    with False p(1) show ?thesis
      by (auto simp: registerErr_def nilHandler_def Let_def possiblyConflictingPatterns_def)
  qed
qed

theorem registerErr_atomic_witness:
  "\<exists>m1 e. registerErr NewServeMux None ''/a'' (OtherHandler 1) = Some (None, m1) \<and>
          registerErr m1 None ''/a'' (OtherHandler 2) = Some (Some e, m1)"
proof -
  have "\<exists>m1 e mux'. registerErr NewServeMux None ''/a'' (OtherHandler 1) = Some (None, m1) \<and>
          registerErr m1 None ''/a'' (OtherHandler 2) = Some (Some e, mux')"
    by (simp add: reg_defs parse_defs)
  then obtain m1 e mux' where
    r: "registerErr NewServeMux None ''/a'' (OtherHandler 1) = Some (None, m1)"
       "registerErr m1 None ''/a'' (OtherHandler 2) = Some (Some e, mux')"
    by blast
  from registerErr_atomic [of m1 None "''/a''" "OtherHandler 2" e mux'] r(2)
  have "mux' = m1" by blast
  with r show ?thesis by blast
qed

text \<open>
  Claim C7. With an empty pattern string \<open>registerErr\<close> returns the invalid-pattern
  error, and with a non-empty pattern string and a nil handler (the nil interface, or a
  nil \<open>http.HandlerFunc\<close> inside a non-nil interface) the nil-handler error; in both
  cases the state is returned as it was and the result does not depend on what parsing
  the pattern string would give.
\<close>

theorem registerErr_rejects_early:
  "(patstr = [] \<longrightarrow> registerErr mux caller patstr h = Some (Some InvalidPattern, mux)) \<and>
   (patstr \<noteq> [] \<and> nilHandler h \<longrightarrow>
      registerErr mux caller patstr h = Some (Some NilHandler, mux)) \<and>
   nilHandler NilInterface \<and> nilHandler (HandlerFunc None)"
  by (auto simp: registerErr_def nilHandler_def)

theorem registerErr_rejects_early_witness:
  "registerErr NewServeMux None [] (OtherHandler 0) = Some (Some InvalidPattern, NewServeMux) \<and>
   registerErr NewServeMux None ''/{'' (HandlerFunc None) = Some (Some NilHandler, NewServeMux) \<and>
   parsePattern ''/{'' = Inl BadWildcardEnd"
  using registerErr_rejects_early [of "[]" NewServeMux None "OtherHandler 0"]
    registerErr_rejects_early [of "''/{''" NewServeMux None "HandlerFunc None"]
  by (simp add: parse_defs)

text \<open>
  Claim C1. On an empty \<open>ServeMux\<close>, registering \<open>/a/{b}\<close> and then \<open>/{c}/d\<close> succeeds
  both times; registering \<open>/a\<close> and then \<open>/a\<close> again fails the second time with a
  pattern conflict, the state stays the one after the first registration, and a lookup
  of \<open>/a\<close> still finds the first handler.
\<close>

theorem register_examples:
  assumes "\<not> nilHandler h1" and "\<not> nilHandler h2"
  shows "(\<exists>m1 m2. registerErr NewServeMux c1 ''/a/{b}'' h1 = Some (None, m1) \<and>
                  registerErr m1 c2 ''/{c}/d'' h2 = Some (None, m2)) \<and>
         (\<exists>m1 p p'. registerErr NewServeMux c1 ''/a'' h1 = Some (None, m1) \<and>
                  registerErr m1 c2 ''/a'' h2 = Some (Some (PatternConflict p p'), m1) \<and>
                  map_option (\<lambda>(n, ms). node_handler n)
                    (routingNode_match (mux_tree m1) host method ''/a'') = Some h1)"
proof (intro conjI)
  from assms have h: "h1 \<noteq> NilInterface" "h1 \<noteq> HandlerFunc None"
    "h2 \<noteq> NilInterface" "h2 \<noteq> HandlerFunc None"
    by (auto simp: nilHandler_def)
  show "\<exists>m1 m2. registerErr NewServeMux c1 ''/a/{b}'' h1 = Some (None, m1) \<and>
                  registerErr m1 c2 ''/{c}/d'' h2 = Some (None, m2)"
    using h by (simp add: reg_defs parse_defs)
  show "\<exists>m1 p p'. registerErr NewServeMux c1 ''/a'' h1 = Some (None, m1) \<and>
                  registerErr m1 c2 ''/a'' h2 = Some (Some (PatternConflict p p'), m1) \<and>
                  map_option (\<lambda>(n, ms). node_handler n)
                    (routingNode_match (mux_tree m1) host method ''/a'') = Some h1"
    using h by (simp add: reg_defs parse_defs match_defs)
qed

theorem register_examples_witness:
  "(\<exists>m1 m2. registerErr NewServeMux None ''/a/{b}'' (OtherHandler 1) = Some (None, m1) \<and>
            registerErr m1 (Some ''main.go:12'') ''/{c}/d'' (HandlerFunc (Some 2)) = Some (None, m2)) \<and>
   (\<exists>m1 p p'. registerErr NewServeMux None ''/a'' (OtherHandler 1) = Some (None, m1) \<and>
            registerErr m1 (Some ''main.go:12'') ''/a'' (HandlerFunc (Some 2)) =
              Some (Some (PatternConflict p p'), m1) \<and>
            map_option (\<lambda>(n, ms). node_handler n)
              (routingNode_match (mux_tree m1) ''example.com'' ''GET'' ''/a'') =
              Some (OtherHandler 1))"
  using register_examples [of "OtherHandler 1" "HandlerFunc (Some 2)" None "Some ''main.go:12''"
      "''example.com''" "''GET''"]
  by (simp add: nilHandler_def)

text \<open>
  Claim C2. On an empty \<open>ServeMux\<close>, registering \<open>GET /\<close> succeeds and registering
  \<open>/index.html\<close> after it fails with a pattern conflict and leaves the state alone:
  \<open>GET /\<close> is among the candidates, \<open>conflictsWith\<close> reports the conflict, the two
  patterns overlap (neither is more specific), and both match a \<open>GET\<close> of
  \<open>/index.html\<close>.
\<close>

theorem register_conflicting_methods:
  assumes "\<not> nilHandler h1" and "\<not> nilHandler h2"
  shows "\<exists>m1 p p'. registerErr NewServeMux c1 ''GET /'' h1 = Some (None, m1) \<and>
           registerErr m1 c2 ''/index.html'' h2 = Some (Some (PatternConflict p p'), m1) \<and>
           pat_str p = ''/index.html'' \<and> pat_str p' = ''GET /'' \<and>
           p' \<in> set (candidates (mux_index m1) p) \<and>
           conflictsWith p p' \<and> comparePathsAndMethods p p' = overlaps \<and>
           patternMatches p host ''GET'' ''/index.html'' \<and>
           patternMatches p' host ''GET'' ''/index.html''"
proof -
  from assms have h: "h1 \<noteq> NilInterface" "h1 \<noteq> HandlerFunc None"
    "h2 \<noteq> NilInterface" "h2 \<noteq> HandlerFunc None"
    by (auto simp: nilHandler_def)
  show ?thesis
    using h by (simp add: reg_defs parse_defs patternMatches_def hostMatches_def methodMatches_def firstSegment_def)
qed

theorem register_conflicting_methods_witness:
  "\<exists>m1 p p'. registerErr NewServeMux None ''GET /'' (OtherHandler 1) = Some (None, m1) \<and>
           registerErr m1 None ''/index.html'' (OtherHandler 2) =
             Some (Some (PatternConflict p p'), m1) \<and>
           pat_str p = ''/index.html'' \<and> pat_str p' = ''GET /'' \<and>
           p' \<in> set (candidates (mux_index m1) p) \<and>
           conflictsWith p p' \<and> comparePathsAndMethods p p' = overlaps \<and>
           patternMatches p ''example.com'' ''GET'' ''/index.html'' \<and>
           patternMatches p' ''example.com'' ''GET'' ''/index.html''"
  using register_conflicting_methods [of "OtherHandler 1" "OtherHandler 2" None None
      "''example.com''"]
  by (simp add: nilHandler_def)

section \<open>Redirects for a missing trailing slash\<close>

lemmas path_defs = cleanPath_def pathClean_def hasSuffixSlash_def countSlash_def

lemmas images_defs = imagesMux_def imagesNode_def imagesPattern_def

lemma register_images:
  "\<not> nilHandler h \<Longrightarrow>
   registerErr NewServeMux c ''/images/'' h = Some (None, imagesMux c h)"
  by (simp add: nilHandler_def reg_defs parse_defs images_defs)

lemma match_images:
  "routingNode_match (mux_tree (imagesMux c h)) host method ''/images'' = None"
  "routingNode_match (mux_tree (imagesMux c h)) host method ''/images/'' =
     Some (imagesNode c h, [])"
  "routingNode_match (mux_tree (imagesMux c h)) host method ''/images/thumb'' =
     Some (imagesNode c h, [])"
  "routingNode_match (mux_tree (imagesMux c h)) host method ''/images/thumb/'' =
     Some (imagesNode c h, [])"
  by (simp_all add: match_defs pathUnescape_def findChild_def imagesMux_def lastSegment_def imagesNode_def
        imagesPattern_def)

lemma exactMatch_images:
  "exactMatch None path = Some False"
  "exactMatch (Some (imagesNode c h)) ''/images/'' = Some True"
  "exactMatch (Some (imagesNode c h)) ''/images/thumb'' = Some False"
  "exactMatch (Some (imagesNode c h)) ''/images/thumb/'' = Some False"
  by (simp_all add: exactMatch_def imagesNode_def imagesPattern_def lastSegment_def countSlash_def)

lemma matchOrRedirect_images:
  "matchOrRedirect (imagesMux c h) host method ''/images''
     (Some \<lparr>url_Host = uh, url_Path = ''/images'', url_RawQuery = q\<rparr>) =
     Some (None, [], Some \<lparr>url_Host = [], url_Path = ''/images/'', url_RawQuery = q\<rparr>)"
  "matchOrRedirect (imagesMux c h) host method ''/images/thumb''
     (Some \<lparr>url_Host = uh, url_Path = ''/images/thumb'', url_RawQuery = q\<rparr>) =
     Some (Some (imagesNode c h), [], None)"
  by (simp_all add: matchOrRedirect_def match_images exactMatch_images path_defs)

text \<open>
  Claim C4 as stated fails: with only \<open>/images/\<close> registered, the lookup of
  \<open>/images/thumb\<close> does not give the no-match outcome; it returns the node of the
  pattern \<open>/images/\<close>, whose trailing slash matches the rest of the path.
\<close>

theorem images_thumb_counterexample:
  "registerErr NewServeMux None ''/images/'' (OtherHandler 0) =
     Some (None, imagesMux None (OtherHandler 0)) \<and>
   matchOrRedirect (imagesMux None (OtherHandler 0)) ''example.com'' ''GET'' ''/images/thumb''
     (Some \<lparr>url_Host = [], url_Path = ''/images/thumb'', url_RawQuery = []\<rparr>) =
     Some (Some (imagesNode None (OtherHandler 0)), [], None) \<and>
   node_pattern (imagesNode None (OtherHandler 0)) = Some (imagesPattern None) \<and>
   pat_str (imagesPattern None) = ''/images/''"
  by (simp add: register_images matchOrRedirect_images nilHandler_def imagesNode_def
        imagesPattern_def)

lemma matchOrRedirect_general:
  assumes "matchOrRedirect mux host method path uo = Some (n, ms, r)"
  shows "(r \<noteq> None) =
           (uo \<noteq> None \<and> \<not> hasSuffixSlash path \<and>
            exactMatch (map_option fst (routingNode_match (mux_tree mux) host method path)) path =
              Some False \<and>
            exactMatch (map_option fst (routingNode_match (mux_tree mux) host method (path @ ''/'')))
              (path @ ''/'') = Some True)"
    and "r \<noteq> None \<longrightarrow> n = None \<and> ms = [] \<and>
           (\<exists>u. uo = Some u \<and>
                r = Some \<lparr>url_Host = [], url_Path = cleanPath (url_Path u) @ ''/'',
                          url_RawQuery = url_RawQuery u\<rparr>)"
    and "r = None \<longrightarrow>
           n = map_option fst (routingNode_match (mux_tree mux) host method path)"
  using assms
  by (auto simp: matchOrRedirect_def Let_def split: option.splits if_splits)

text \<open>
  Claim C4, as amended. Whenever \<open>matchOrRedirect\<close> returns, it signals a redirect
  exactly when a URL was given, the path does not end in a slash, the match of the path
  is not exact and the match of the path with a slash appended is exact; the redirect
  carries no node and goes to the cleaned path of the URL with a slash appended, and
  without a redirect the node is the match of the path. With only \<open>/images/\<close>
  registered, a lookup of \<open>/images\<close> gives the redirect to \<open>/images/\<close> and no node, and
  a lookup of \<open>/images/thumb\<close> gives the node of \<open>/images/\<close> and no redirect.
\<close>

theorem matchOrRedirect_redirects:
  "(matchOrRedirect mux host method path uo = Some (n, ms, r) \<longrightarrow>
      ((r \<noteq> None) =
           (uo \<noteq> None \<and> \<not> hasSuffixSlash path \<and>
            exactMatch (map_option fst (routingNode_match (mux_tree mux) host method path)) path =
              Some False \<and>
            exactMatch (map_option fst (routingNode_match (mux_tree mux) host method (path @ ''/'')))
              (path @ ''/'') = Some True)) \<and>
      (r \<noteq> None \<longrightarrow> n = None \<and> ms = [] \<and>
           (\<exists>u. uo = Some u \<and>
                r = Some \<lparr>url_Host = [], url_Path = cleanPath (url_Path u) @ ''/'',
                          url_RawQuery = url_RawQuery u\<rparr>)) \<and>
      (r = None \<longrightarrow>
           n = map_option fst (routingNode_match (mux_tree mux) host method path))) \<and>
   (\<not> nilHandler h \<longrightarrow>
      registerErr NewServeMux c ''/images/'' h = Some (None, imagesMux c h) \<and>
      matchOrRedirect (imagesMux c h) host' method' ''/images''
        (Some \<lparr>url_Host = uh, url_Path = ''/images'', url_RawQuery = q\<rparr>) =
        Some (None, [], Some \<lparr>url_Host = [], url_Path = ''/images/'', url_RawQuery = q\<rparr>) \<and>
      matchOrRedirect (imagesMux c h) host' method' ''/images/thumb''
        (Some \<lparr>url_Host = uh, url_Path = ''/images/thumb'', url_RawQuery = q\<rparr>) =
        Some (Some (imagesNode c h), [], None) \<and>
      node_handler (imagesNode c h) = h \<and>
      map_option pat_str (node_pattern (imagesNode c h)) = Some ''/images/'')"
proof -
  have g: "matchOrRedirect mux host method path uo = Some (n, ms, r) \<longrightarrow>
      ((r \<noteq> None) =
           (uo \<noteq> None \<and> \<not> hasSuffixSlash path \<and>
            exactMatch (map_option fst (routingNode_match (mux_tree mux) host method path)) path =
              Some False \<and>
            exactMatch (map_option fst (routingNode_match (mux_tree mux) host method (path @ ''/'')))
              (path @ ''/'') = Some True)) \<and>
      (r \<noteq> None \<longrightarrow> n = None \<and> ms = [] \<and>
           (\<exists>u. uo = Some u \<and>
                r = Some \<lparr>url_Host = [], url_Path = cleanPath (url_Path u) @ ''/'',
                          url_RawQuery = url_RawQuery u\<rparr>)) \<and>
      (r = None \<longrightarrow>
           n = map_option fst (routingNode_match (mux_tree mux) host method path))"
  proof
    assume a: "matchOrRedirect mux host method path uo = Some (n, ms, r)"
    from matchOrRedirect_general(1) [OF a] matchOrRedirect_general(2) [OF a]
      matchOrRedirect_general(3) [OF a]
    show "((r \<noteq> None) =
           (uo \<noteq> None \<and> \<not> hasSuffixSlash path \<and>
            exactMatch (map_option fst (routingNode_match (mux_tree mux) host method path)) path =
              Some False \<and>
            exactMatch (map_option fst (routingNode_match (mux_tree mux) host method (path @ ''/'')))
              (path @ ''/'') = Some True)) \<and>
      (r \<noteq> None \<longrightarrow> n = None \<and> ms = [] \<and>
           (\<exists>u. uo = Some u \<and>
                r = Some \<lparr>url_Host = [], url_Path = cleanPath (url_Path u) @ ''/'',
                          url_RawQuery = url_RawQuery u\<rparr>)) \<and>
      (r = None \<longrightarrow>
           n = map_option fst (routingNode_match (mux_tree mux) host method path))"
      by - (intro conjI; assumption)
  qed
  have e: "\<not> nilHandler h \<longrightarrow>
      registerErr NewServeMux c ''/images/'' h = Some (None, imagesMux c h) \<and>
      matchOrRedirect (imagesMux c h) host' method' ''/images''
        (Some \<lparr>url_Host = uh, url_Path = ''/images'', url_RawQuery = q\<rparr>) =
        Some (None, [], Some \<lparr>url_Host = [], url_Path = ''/images/'', url_RawQuery = q\<rparr>) \<and>
      matchOrRedirect (imagesMux c h) host' method' ''/images/thumb''
        (Some \<lparr>url_Host = uh, url_Path = ''/images/thumb'', url_RawQuery = q\<rparr>) =
        Some (Some (imagesNode c h), [], None) \<and>
      node_handler (imagesNode c h) = h \<and>
      map_option pat_str (node_pattern (imagesNode c h)) = Some ''/images/''"
    by (simp add: register_images matchOrRedirect_images imagesNode_def imagesPattern_def)
  from g e show ?thesis by (rule conjI)
qed

theorem matchOrRedirect_redirects_witness:
  "exactMatch (map_option fst
      (routingNode_match (mux_tree (imagesMux None (OtherHandler 0))) ''example.com'' ''GET''
         ''/images'')) ''/images'' = Some False \<and>
   exactMatch (map_option fst
      (routingNode_match (mux_tree (imagesMux None (OtherHandler 0))) ''example.com'' ''GET''
         ''/images/'')) ''/images/'' = Some True \<and>
   registerErr NewServeMux None ''/images/'' (OtherHandler 0) =
     Some (None, imagesMux None (OtherHandler 0))"
  using matchOrRedirect_redirects [of "imagesMux None (OtherHandler 0)" "''example.com''" "''GET''"
      "''/images''" "Some \<lparr>url_Host = [], url_Path = ''/images'', url_RawQuery = []\<rparr>"
      None "[]" "Some \<lparr>url_Host = [], url_Path = ''/images/'', url_RawQuery = []\<rparr>"
      "OtherHandler 0" None]
    matchOrRedirect_images(1) [of None "OtherHandler 0" "''example.com''" "''GET''" "[]" "[]"]
  by (simp add: nilHandler_def hasSuffixSlash_def)

section \<open>The methods that would match\<close>

lemma finite_matchingMethodsPath:
  "finite ms \<Longrightarrow> finite (matchingMethodsPath hn path ms)"
  by (auto simp: matchingMethodsPath_def split: option.splits)

lemma finite_routingNode_matchingMethods:
  "finite ms \<Longrightarrow> finite (routingNode_matchingMethods root host path ms)"
  by (auto simp: routingNode_matchingMethods_def Let_def finite_matchingMethodsPath)

lemma matchingMethodsPath_union:
  "matchingMethodsPath hn path ms = ms \<union> matchingMethodsPath hn path {}"
  by (auto simp: matchingMethodsPath_def split: option.splits)

lemma routingNode_matchingMethods_closed:
  "''GET'' \<in> routingNode_matchingMethods root host path ms \<Longrightarrow>
   ''HEAD'' \<in> routingNode_matchingMethods root host path ms"
  by (auto simp: routingNode_matchingMethods_def Let_def split: if_splits)

lemma routingNode_matchingMethods_union:
  assumes "''GET'' \<in> ms \<longrightarrow> ''HEAD'' \<in> ms"
  shows "routingNode_matchingMethods root host path ms =
         ms \<union> routingNode_matchingMethods root host path {}"
  using assms
  unfolding routingNode_matchingMethods_def Let_def matchingMethodsPath_def
  by (cases "findChild root host"; cases "findChild root []") auto

lemma sorted_distinct_matchingMethods:
  "sorted (ServeMux_matchingMethods mux host path) \<and>
   distinct (ServeMux_matchingMethods mux host path)"
  by (simp add: ServeMux_matchingMethods_def Let_def)

lemma set_matchingMethods:
  "set (ServeMux_matchingMethods mux host path) =
     routingNode_matchingMethods (mux_tree mux) host path {} \<union>
     (if hasSuffixSlash path then {}
      else routingNode_matchingMethods (mux_tree mux) host (path @ ''/'') {})"
proof -
  let ?a = "routingNode_matchingMethods (mux_tree mux) host path {}"
  have c: "''GET'' \<in> ?a \<longrightarrow> ''HEAD'' \<in> ?a"
    using routingNode_matchingMethods_closed by blast
  have f: "finite ?a" by (simp add: finite_routingNode_matchingMethods)
  have f2: "finite (routingNode_matchingMethods (mux_tree mux) host (path @ ''/'') ?a)"
    using f by (rule finite_routingNode_matchingMethods)
  show ?thesis
    using f f2 routingNode_matchingMethods_union [OF c, of "mux_tree mux" host "path @ ''/''"]
    by (simp add: ServeMux_matchingMethods_def Let_def)
qed

lemmas methods_defs = ServeMux_matchingMethods_def routingNode_matchingMethods_def
  matchingMethodsPath_def hasSuffixSlash_def less_eq_char_def less_char_def

text \<open>
  Claim C10. The list \<open>ServeMux.matchingMethods\<close> returns holds exactly the methods the
  routing tree finds for the path together with, when the path does not end in a slash,
  those it finds for the path with a slash appended; it is sorted in ascending order and
  has no duplicates. With \<open>GET /x/\<close> registered, the tree finds no method for \<open>/x\<close>
  itself, and \<open>matchingMethods\<close> of \<open>/x\<close> is \<open>GET, HEAD\<close>.
\<close>

theorem matchingMethods_trailing_slash:
  "set (ServeMux_matchingMethods mux host path) =
     routingNode_matchingMethods (mux_tree mux) host path {} \<union>
     (if hasSuffixSlash path then {}
      else routingNode_matchingMethods (mux_tree mux) host (path @ ''/'') {}) \<and>
   sorted (ServeMux_matchingMethods mux host path) \<and>
   distinct (ServeMux_matchingMethods mux host path) \<and>
   (\<not> nilHandler h \<longrightarrow>
      (\<exists>m. registerErr NewServeMux c ''GET /x/'' h = Some (None, m) \<and>
           routingNode_matchingMethods (mux_tree m) host ''/x'' {} = {} \<and>
           routingNode_matchingMethods (mux_tree m) host ''/x/'' {} = {''GET'', ''HEAD''} \<and>
           ServeMux_matchingMethods m host ''/x'' = [''GET'', ''HEAD'']))"
proof (intro conjI impI)
  assume "\<not> nilHandler h"
  then have h: "h \<noteq> NilInterface" "h \<noteq> HandlerFunc None" by (auto simp: nilHandler_def)
  then show "\<exists>m. registerErr NewServeMux c ''GET /x/'' h = Some (None, m) \<and>
           routingNode_matchingMethods (mux_tree m) host ''/x'' {} = {} \<and>
           routingNode_matchingMethods (mux_tree m) host ''/x/'' {} = {''GET'', ''HEAD''} \<and>
           ServeMux_matchingMethods m host ''/x'' = [''GET'', ''HEAD'']"
    by (auto simp add: reg_defs parse_defs match_defs methods_defs)
qed (simp_all add: set_matchingMethods sorted_distinct_matchingMethods)

theorem matchingMethods_trailing_slash_witness:
  "\<exists>m. registerErr NewServeMux None ''GET /x/'' (OtherHandler 1) = Some (None, m) \<and>
       routingNode_matchingMethods (mux_tree m) ''example.com'' ''/x'' {} = {} \<and>
       routingNode_matchingMethods (mux_tree m) ''example.com'' ''/x/'' {} = {''GET'', ''HEAD''} \<and>
       ServeMux_matchingMethods m ''example.com'' ''/x'' = [''GET'', ''HEAD'']"
  using matchingMethods_trailing_slash [of _ "''example.com''" _ "OtherHandler 1" None]
  by (simp add: nilHandler_def)

section \<open>A pattern with a host beside one without\<close>

lemma findChild_setChild [simp]:
  "findChild (setChild n key c) k = (if k = key then Some c else findChild n k)"
  by (simp add: findChild_def setChild_def update_conv)

lemma setChild_sel [simp]:
  "node_pattern (setChild n key c) = node_pattern n"
  "multiChild (setChild n key c) = multiChild n"
  "wildChild (setChild n key c) = wildChild n"
  by (simp_all add: setChild_def)

lemma emptyNode_sel [simp]:
  "node_pattern emptyNode = None" "multiChild emptyNode = None" "wildChild emptyNode = None"
  "findChild emptyNode k = None" "childOrEmpty emptyNode k = emptyNode"
  "wildOrEmpty emptyNode = emptyNode"
  by (simp_all add: emptyNode_def findChild_def childOrEmpty_def wildOrEmpty_def)

lemma matchPath_addSegments:
  "multiConsumed segs path = Some r \<Longrightarrow>
   \<exists>ms'. matchPath (addSegments emptyNode segs p h) path ms = Some (leafNode p h, ms')"
proof (induction segs arbitrary: path ms r)
  case Nil
  then have "path = []" by (auto split: if_splits)
  then show ?case
    by (simp add: matchPath.simps leafNode_def emptyNode_def)
next
  case (Cons sg segs)
  from Cons.prems have pne: "path \<noteq> []" by (auto split: if_splits)
  show ?case
  proof (cases "seg_multi sg")
    case True
    with pne show ?thesis
      by (simp add: matchPath.simps [of _ path] leafNode_def findChild_def emptyNode_def)
  next
    case False
    let ?seg = "fst (firstSegment path)" and ?rest = "snd (firstSegment path)"
    let ?sub = "addSegments emptyNode segs p h"
    from False Cons.prems pne have mc: "multiConsumed segs ?rest = Some r"
      and cond: "if seg_wild sg then ?seg \<noteq> ''/'' else ?seg = seg_s sg"
      by (auto split: if_splits)
    from Cons.IH [OF mc] have ih: "\<exists>ms'. matchPath ?sub ?rest ms0 = Some (leafNode p h, ms')" for ms0
      by blast
    show ?thesis
    proof (cases "seg_wild sg")
      case True
      with cond have ns: "?seg \<noteq> ''/''" by simp
      have node: "addSegments emptyNode (sg # segs) p h =
                    RoutingNode None NilInterface [] (Some ?sub) None"
        using True \<open>\<not> seg_multi sg\<close> by (simp add: emptyNode_def wildOrEmpty_def)
      from ih [of "ms @ [?seg]"] ns pne show ?thesis
        unfolding node
        by (subst matchPath.simps) (auto simp: findChild_def)
    next
      case False
      with cond have "?seg = seg_s sg" by simp
      moreover have node: "addSegments emptyNode (sg # segs) p h =
                    setChild emptyNode (seg_s sg) ?sub"
        using False \<open>\<not> seg_multi sg\<close> by simp
      ultimately show ?thesis
        using ih [of ms] pne
        unfolding node
        by (subst matchPath.simps) (auto split: option.splits)
    qed
  qed
qed

lemma matchMethodAndPath_single:
  assumes "methodMatches p method" and "multiConsumed (pat_segments p) path = Some r"
  shows "\<exists>ms. matchMethodAndPath
           (Some (setChild emptyNode (pat_method p) (addSegments emptyNode (pat_segments p) p h)))
           method path = Some (leafNode p h, ms)"
proof -
  let ?sub = "addSegments emptyNode (pat_segments p) p h"
  from matchPath_addSegments [OF assms(2)]
  obtain ms where ms: "matchPath ?sub path [] = Some (leafNode p h, ms)" by blast
  from assms(1) ms show ?thesis
    unfolding matchMethodAndPath_def methodMatches_def
    by (auto split: option.splits)
qed


lemma childOrEmpty_setChild [simp]:
  "childOrEmpty (setChild n key c) k = (if k = key then c else childOrEmpty n k)"
  by (simp add: childOrEmpty_def)

lemma routingNode_match_host:
  assumes "findChild root (pat_host p) =
             Some (setChild emptyNode (pat_method p) (addSegments emptyNode (pat_segments p) p h))"
    and "pat_host p \<noteq> []" and "patternMatches p host method path"
  shows "\<exists>ms. routingNode_match root host method path = Some (leafNode p h, ms)"
proof -
  from assms(2,3) have host: "host = pat_host p" and mm: "methodMatches p method"
    by (auto simp: patternMatches_def hostMatches_def)
  from assms(3) obtain r where r: "multiConsumed (pat_segments p) path = Some r"
    by (auto simp: patternMatches_def)
  from matchMethodAndPath_single [OF mm r, of h] assms(1,2) show ?thesis
    by (auto simp: routingNode_match_def host)
qed

lemma bucket_subset: "set (bucket m k) \<subseteq> set (concat (map snd m))"
proof (cases "map_of m k")
  case None
  then show ?thesis by (simp add: bucket_def)
next
  case (Some ps)
  then have "(k, ps) \<in> set m" by (rule map_of_SomeD)
  with Some show ?thesis by (force simp: bucket_def)
qed

lemma update_values_subset:
  "set (concat (map snd (AList.update k v m))) \<subseteq> set (concat (map snd m)) \<union> set v"
  by (induction m) auto

lemma addSegmentKeys_values:
  "set (concat (map snd (addSegmentKeys m pat pos segs))) \<subseteq>
     insert pat (set (concat (map snd m)))"
proof (induction segs arbitrary: m pos)
  case Nil
  then show ?case by auto
next
  case (Cons sg segs)
  let ?k = "segmentKey pos sg"
  have "set (concat (map snd (AList.update ?k (bucket m ?k @ [pat]) m))) \<subseteq>
          insert pat (set (concat (map snd m)))"
    using update_values_subset [of ?k "bucket m ?k @ [pat]" m] bucket_subset [of m ?k]
    by auto
  with Cons.IH [of "AList.update ?k (bucket m ?k @ [pat]) m" "Suc pos"] show ?case
    by auto
qed

lemma indexPatterns_addPattern:
  assumes "routingIndex_addPattern idx pat = Some idx'"
  shows "indexPatterns idx' \<subseteq> insert pat (indexPatterns idx)"
proof -
  from assms obtain ls where ls: "lastSegment pat = Some ls"
    by (auto simp: routingIndex_addPattern_def split: option.splits)
  show ?thesis
  proof (cases "seg_multi ls")
    case True
    with assms ls show ?thesis
      by (auto simp: routingIndex_addPattern_def indexPatterns_def)
  next
    case False
    with assms ls have e: "idx_multis idx' = idx_multis idx"
      "idx_segments idx' = addSegmentKeys (idx_segments idx) pat 0 (pat_segments pat)"
      by (auto simp: routingIndex_addPattern_def)
    have "set (concat (map snd (idx_segments idx'))) \<subseteq>
            insert pat (set (concat (map snd (idx_segments idx))))"
      unfolding e by (rule addSegmentKeys_values)
    moreover have "set (idx_multis idx') = set (idx_multis idx)"
      unfolding e by simp
    ultimately show ?thesis
      unfolding indexPatterns_def by blast
  qed
qed

lemma candidates_subset: "set (candidates idx pat) \<subseteq> indexPatterns idx"
  by (auto simp: candidates_def indexPatterns_def indexedPatterns_def)

lemma indexPatterns_empty [simp]: "indexPatterns emptyIndex = {}"
  by (simp add: indexPatterns_def emptyIndex_def)

lemma routingIndex_addPattern_total:
  "pat_segments pat \<noteq> [] \<Longrightarrow> \<exists>idx'. routingIndex_addPattern idx pat = Some idx'"
  by (cases "pat_segments pat") (auto simp: routingIndex_addPattern_def lastSegment_def)

lemma splitOn_nonempty: "splitOn c s \<noteq> []"
  by (induction s) (auto split: list.splits)

lemma parseSegments_nonempty:
  "parseSegments cs seen = Inr segs \<Longrightarrow> cs \<noteq> [] \<Longrightarrow> segs \<noteq> []"
  by (cases cs) (auto simp: Let_def split: if_splits sum.splits)

lemma parsePattern_segments:
  "parsePattern s = Inr p \<Longrightarrow> s \<noteq> [] \<and> pat_segments p \<noteq> []"
  by (auto simp: parsePattern_def Let_def split: if_splits sum.splits
        dest!: parseSegments_nonempty simp: splitOn_nonempty)

lemma withLoc_sel [simp]:
  "pat_host (withLoc p c) = pat_host p" "pat_method (withLoc p c) = pat_method p"
  "pat_segments (withLoc p c) = pat_segments p" "pat_str (withLoc p c) = pat_str p"
  by (simp_all add: withLoc_def)

lemma registerErr_success:
  assumes "\<not> nilHandler h" and "parsePattern patstr = Inr parsed"
    and "\<forall>q \<in> set (candidates (mux_index mux) (withLoc parsed c)).
           \<not> conflictsWith (withLoc parsed c) q"
  shows "\<exists>idx'. routingIndex_addPattern (mux_index mux) (withLoc parsed c) = Some idx' \<and>
           registerErr mux c patstr h =
             Some (None, \<lparr>mux_tree = routingNode_addPattern (mux_tree mux) (withLoc parsed c) h,
                          mux_index = idx'\<rparr>)"
proof -
  from parsePattern_segments [OF assms(2)] have ne: "patstr \<noteq> []" "pat_segments parsed \<noteq> []"
    by auto
  from routingIndex_addPattern_total [of "withLoc parsed c" "mux_index mux"] ne(2)
  obtain idx' where idx': "routingIndex_addPattern (mux_index mux) (withLoc parsed c) = Some idx'"
    by auto
  let ?f = "\<lambda>pat2. if conflictsWith (withLoc parsed c) pat2
                 then Some (PatternConflict (withLoc parsed c) pat2) else None"
  have "firstError ?f (candidates (mux_index mux) (withLoc parsed c)) = None"
    using assms(3) by (simp add: firstError_None)
  with assms(1,2) ne(1) idx' show ?thesis
    by (simp add: registerErr_def nilHandler_def Let_def possiblyConflictingPatterns_def)
qed

lemma routingNode_addPattern_fresh_host:
  "findChild root (pat_host p) = None \<Longrightarrow>
   routingNode_addPattern root p h =
     setChild root (pat_host p)
       (setChild emptyNode (pat_method p) (addSegments emptyNode (pat_segments p) p h))"
  by (simp add: routingNode_addPattern_def Let_def childOrEmpty_def)

text \<open>
  Claim C3. Let \<open>P\<close> and \<open>Q\<close> be parsed patterns of which \<open>P\<close> has a host and \<open>Q\<close> has
  none, whatever their methods and paths (so also when these would make them conflict).
  On a new \<open>ServeMux\<close> both registrations succeed in either order, \<open>conflictsWith\<close> is
  false in both directions, and in both resulting muxes every request that \<open>P\<close> and \<open>Q\<close>
  both match is dispatched to the node of \<open>P\<close> with the handler of \<open>P\<close>.
\<close>

theorem host_pattern_precedence:
  assumes "parsePattern sp = Inr P" and "parsePattern sq = Inr Q"
    and "pat_host P \<noteq> []" and "pat_host Q = []"
    and "\<not> nilHandler hp" and "\<not> nilHandler hq"
  shows "\<exists>m1 m2 m1' m2'.
           registerErr NewServeMux cp sp hp = Some (None, m1) \<and>
           registerErr m1 cq sq hq = Some (None, m2) \<and>
           registerErr NewServeMux cq sq hq = Some (None, m1') \<and>
           registerErr m1' cp sp hp = Some (None, m2') \<and>
           \<not> conflictsWith (withLoc P cp) (withLoc Q cq) \<and>
           \<not> conflictsWith (withLoc Q cq) (withLoc P cp) \<and>
           (\<forall>host method path.
              patternMatches P host method path \<and> patternMatches Q host method path \<longrightarrow>
              (\<exists>ms. routingNode_match (mux_tree m2) host method path =
                      Some (leafNode (withLoc P cp) hp, ms)) \<and>
              (\<exists>ms. routingNode_match (mux_tree m2') host method path =
                      Some (leafNode (withLoc P cp) hp, ms)))"
proof -
  let ?P = "withLoc P cp" and ?Q = "withLoc Q cq"
  let ?XP = "setChild emptyNode (pat_method ?P) (addSegments emptyNode (pat_segments ?P) ?P hp)"
  let ?XQ = "setChild emptyNode (pat_method ?Q) (addSegments emptyNode (pat_segments ?Q) ?Q hq)"
  have nc: "\<not> conflictsWith ?P ?Q" "\<not> conflictsWith ?Q ?P"
    using assms(3,4) by (auto simp: conflictsWith_def)
  \<comment> \<open>first order\<close>
  from registerErr_success [OF assms(5) assms(1), of NewServeMux cp]
  obtain i1 where i1: "routingIndex_addPattern emptyIndex ?P = Some i1"
    and r1: "registerErr NewServeMux cp sp hp =
               Some (None, \<lparr>mux_tree = routingNode_addPattern emptyNode ?P hp, mux_index = i1\<rparr>)"
    using candidates_subset [of emptyIndex ?P] by (auto simp: NewServeMux_def)
  let ?m1 = "\<lparr>mux_tree = routingNode_addPattern emptyNode ?P hp, mux_index = i1\<rparr>"
  have c1: "set (candidates i1 ?Q) \<subseteq> {?P}"
    using candidates_subset [of i1 ?Q] indexPatterns_addPattern [OF i1] by auto
  from registerErr_success [OF assms(6) assms(2), of ?m1 cq] c1 nc
  obtain i2 where r2: "registerErr ?m1 cq sq hq =
      Some (None, \<lparr>mux_tree = routingNode_addPattern (routingNode_addPattern emptyNode ?P hp) ?Q hq,
                   mux_index = i2\<rparr>)"
    by auto
  \<comment> \<open>second order\<close>
  from registerErr_success [OF assms(6) assms(2), of NewServeMux cq]
  obtain j1 where j1: "routingIndex_addPattern emptyIndex ?Q = Some j1"
    and s1: "registerErr NewServeMux cq sq hq =
               Some (None, \<lparr>mux_tree = routingNode_addPattern emptyNode ?Q hq, mux_index = j1\<rparr>)"
    using candidates_subset [of emptyIndex ?Q] by (auto simp: NewServeMux_def)
  let ?n1 = "\<lparr>mux_tree = routingNode_addPattern emptyNode ?Q hq, mux_index = j1\<rparr>"
  have d1: "set (candidates j1 ?P) \<subseteq> {?Q}"
    using candidates_subset [of j1 ?P] indexPatterns_addPattern [OF j1] by auto
  from registerErr_success [OF assms(5) assms(1), of ?n1 cp] d1 nc
  obtain j2 where s2: "registerErr ?n1 cp sp hp =
      Some (None, \<lparr>mux_tree = routingNode_addPattern (routingNode_addPattern emptyNode ?Q hq) ?P hp,
                   mux_index = j2\<rparr>)"
    by auto
  \<comment> \<open>the trees\<close>
  have t1: "routingNode_addPattern emptyNode ?P hp = setChild emptyNode (pat_host ?P) ?XP"
    by (simp add: routingNode_addPattern_fresh_host)
  have t2: "routingNode_addPattern (routingNode_addPattern emptyNode ?P hp) ?Q hq =
              setChild (setChild emptyNode (pat_host ?P) ?XP) (pat_host ?Q) ?XQ"
    unfolding t1 using assms(3,4) by (subst routingNode_addPattern_fresh_host) auto
  have u1: "routingNode_addPattern emptyNode ?Q hq = setChild emptyNode (pat_host ?Q) ?XQ"
    by (simp add: routingNode_addPattern_fresh_host)
  have u2: "routingNode_addPattern (routingNode_addPattern emptyNode ?Q hq) ?P hp =
              setChild (setChild emptyNode (pat_host ?Q) ?XQ) (pat_host ?P) ?XP"
    unfolding u1 using assms(3,4) by (subst routingNode_addPattern_fresh_host) auto
  have f1: "findChild (routingNode_addPattern (routingNode_addPattern emptyNode ?P hp) ?Q hq)
              (pat_host ?P) = Some ?XP"
    unfolding t2 using assms(3,4) by simp
  have f2: "findChild (routingNode_addPattern (routingNode_addPattern emptyNode ?Q hq) ?P hp)
              (pat_host ?P) = Some ?XP"
    unfolding u2 by simp
  have pm: "patternMatches ?P hst mth pth = patternMatches P hst mth pth"
    for hst mth pth
    by (simp add: patternMatches_def hostMatches_def methodMatches_def)
  have m: "patternMatches P hst mth pth \<Longrightarrow>
      (\<exists>ms. routingNode_match
               (routingNode_addPattern (routingNode_addPattern emptyNode ?P hp) ?Q hq)
               hst mth pth = Some (leafNode ?P hp, ms)) \<and>
      (\<exists>ms. routingNode_match
               (routingNode_addPattern (routingNode_addPattern emptyNode ?Q hq) ?P hp)
               hst mth pth = Some (leafNode ?P hp, ms))" for hst mth pth
    using routingNode_match_host [OF f1, of hst mth pth]
      routingNode_match_host [OF f2, of hst mth pth] assms(3)
    by (simp add: pm)
  from r1 r2 s1 s2 nc m show ?thesis
    by (intro exI [of _ ?m1] exI [of _ ?n1]
          exI [of _ "\<lparr>mux_tree = routingNode_addPattern (routingNode_addPattern emptyNode ?P hp) ?Q hq,
                   mux_index = i2\<rparr>"]
          exI [of _ "\<lparr>mux_tree = routingNode_addPattern (routingNode_addPattern emptyNode ?Q hq) ?P hp,
                   mux_index = j2\<rparr>"]) auto
qed

theorem host_pattern_precedence_witness:
  "\<exists>P Q m2 m2'.
     parsePattern ''example.com/a'' = Inr P \<and> parsePattern ''/a'' = Inr Q \<and>
     comparePathsAndMethods P Q = equivalent \<and>
     patternMatches P ''example.com'' ''GET'' ''/a'' \<and>
     patternMatches Q ''example.com'' ''GET'' ''/a'' \<and>
     (\<exists>m1. registerErr NewServeMux None ''example.com/a'' (OtherHandler 1) = Some (None, m1) \<and>
           registerErr m1 None ''/a'' (OtherHandler 2) = Some (None, m2)) \<and>
     (\<exists>m1'. registerErr NewServeMux None ''/a'' (OtherHandler 2) = Some (None, m1') \<and>
           registerErr m1' None ''example.com/a'' (OtherHandler 1) = Some (None, m2')) \<and>
     (\<exists>ms. routingNode_match (mux_tree m2) ''example.com'' ''GET'' ''/a'' =
             Some (leafNode (withLoc P None) (OtherHandler 1), ms)) \<and>
     (\<exists>ms. routingNode_match (mux_tree m2') ''example.com'' ''GET'' ''/a'' =
             Some (leafNode (withLoc P None) (OtherHandler 1), ms))"
proof -
  let ?P = "\<lparr>pat_str = ''example.com/a'', pat_method = [], pat_host = ''example.com'',
             pat_segments = [\<lparr>seg_s = ''a'', seg_wild = False, seg_multi = False\<rparr>],
             pat_loc = []\<rparr>"
  let ?Q = "\<lparr>pat_str = ''/a'', pat_method = [], pat_host = [],
             pat_segments = [\<lparr>seg_s = ''a'', seg_wild = False, seg_multi = False\<rparr>],
             pat_loc = []\<rparr>"
  have p: "parsePattern ''example.com/a'' = Inr ?P" by (simp add: parse_defs)
  have q: "parsePattern ''/a'' = Inr ?Q" by (simp add: parse_defs)
  have n: "\<not> nilHandler (OtherHandler 1)" "\<not> nilHandler (OtherHandler 2)"
    by (simp_all add: nilHandler_def)
  have c: "comparePathsAndMethods ?P ?Q = equivalent"
    by (simp add: comparePathsAndMethods_def compareMethods_def compareSegments_def
          combineRelationships_def)
  have mp: "patternMatches ?P ''example.com'' ''GET'' ''/a''"
    and mq: "patternMatches ?Q ''example.com'' ''GET'' ''/a''"
    by (simp_all add: patternMatches_def hostMatches_def methodMatches_def firstSegment_def
          pathUnescape_def)
  from host_pattern_precedence [OF p q _ _ n, of None None]
  obtain m1 m2 m1' m2' where
    r: "registerErr NewServeMux None ''example.com/a'' (OtherHandler 1) = Some (None, m1)"
       "registerErr m1 None ''/a'' (OtherHandler 2) = Some (None, m2)"
       "registerErr NewServeMux None ''/a'' (OtherHandler 2) = Some (None, m1')"
       "registerErr m1' None ''example.com/a'' (OtherHandler 1) = Some (None, m2')"
    and d: "\<forall>host method path.
              patternMatches ?P host method path \<and> patternMatches ?Q host method path \<longrightarrow>
              (\<exists>ms. routingNode_match (mux_tree m2) host method path =
                      Some (leafNode (withLoc ?P None) (OtherHandler 1), ms)) \<and>
              (\<exists>ms. routingNode_match (mux_tree m2') host method path =
                      Some (leafNode (withLoc ?P None) (OtherHandler 1), ms))"
    by auto
  from d mp mq have
    "(\<exists>ms. routingNode_match (mux_tree m2) ''example.com'' ''GET'' ''/a'' =
             Some (leafNode (withLoc ?P None) (OtherHandler 1), ms)) \<and>
     (\<exists>ms. routingNode_match (mux_tree m2') ''example.com'' ''GET'' ''/a'' =
             Some (leafNode (withLoc ?P None) (OtherHandler 1), ms))"
    by blast
  with p q c mp mq r show ?thesis by blast
qed

section \<open>The routing tree returns registered patterns that match\<close>

inductive_simps holds_node: "holds R h m pre (RoutingNode pat hdl cs wc mc)"

lemma holds_iff:
  "holds R h m pre n \<longleftrightarrow>
     (\<forall>p. node_pattern n = Some p \<longrightarrow> leafAt R h m pre p) \<and>
     (\<forall>k c. (k, c) \<in> set (children n) \<longrightarrow> holds R h m (pre @ [Lit k]) c) \<and>
     (\<forall>c. wildChild n = Some c \<longrightarrow> holds R h m (pre @ [Wild]) c) \<and>
     (\<forall>c. multiChild n = Some c \<longrightarrow> (\<exists>p. node_pattern c = Some p \<and> multiAt R h m pre p))"
  by (cases n) (simp add: holds_node)

lemma holds_emptyNode [simp]: "holds R h m pre emptyNode"
  by (simp add: emptyNode_def holds_node)

lemma holds_mono: "holds R h m pre n \<Longrightarrow> R \<subseteq> R' \<Longrightarrow> holds R' h m pre n"
proof (induction rule: holds.induct)
  case (holdsI pat R h m pre cs wc mc hdl)
  then show ?case
    by (auto simp: holds_node leafAt_def multiAt_def) blast+
qed

lemma findChild_mem: "findChild n k = Some c \<Longrightarrow> (k, c) \<in> set (children n)"
  by (simp add: findChild_def map_of_SomeD)

lemma multiConsumed_step:
  assumes "path \<noteq> []" and "\<not> seg_multi sg"
    and "if seg_wild sg then fst (firstSegment path) \<noteq> ''/''
         else fst (firstSegment path) = seg_s sg"
  shows "multiConsumed (sg # rest) path = multiConsumed rest (snd (firstSegment path))"
  using assms by simp

lemma map_segStep_snoc:
  "map segStep segs = pre @ [st] \<Longrightarrow>
   \<exists>segs0 sg. segs = segs0 @ [sg] \<and> map segStep segs0 = pre \<and> segStep sg = st"
  by (cases segs rule: rev_cases) auto

lemma matchPath_sound:
  "holds R h m pre n \<Longrightarrow> matchPath n path ms = Some (leaf, ms') \<Longrightarrow>
   \<exists>p segs rest. node_pattern leaf = Some p \<and> p \<in> R \<and> pat_host p = h \<and> pat_method p = m \<and>
      pat_segments p = segs @ rest \<and> map segStep segs = pre \<and>
      (\<forall>sg \<in> set segs. \<not> seg_multi sg) \<and> multiConsumed rest path \<noteq> None"
proof (induction n path ms arbitrary: pre rule: matchPath.induct)
  case (1 n path matches)
  note h = iffD1 [OF holds_iff "1.prems"(1)]
  show ?case
  proof (cases "path = []")
    case True
    from "1.prems"(2) True have "matchPath n [] matches = Some (leaf, ms')" by simp
    then have "node_pattern n \<noteq> None \<and> leaf = n"
      by (subst (asm) matchPath.simps) (simp split: if_splits)
    then obtain p where p: "node_pattern n = Some p" and l: "leaf = n"
      by blast
    from h p have la: "leafAt R h m pre p" by blast
    have "node_pattern leaf = Some p \<and> p \<in> R \<and> pat_host p = h \<and> pat_method p = m \<and>
      pat_segments p = pat_segments p @ [] \<and> map segStep (pat_segments p) = pre \<and>
      (\<forall>sg \<in> set (pat_segments p). \<not> seg_multi sg) \<and> multiConsumed [] path \<noteq> None"
      using la p l True by (simp add: leafAt_def)
    then show ?thesis by blast
  next
    case False
    let ?seg = "fst (firstSegment path)" and ?rest = "snd (firstSegment path)"
    let ?lit = "case findChild n ?seg of None \<Rightarrow> None | Some c \<Rightarrow> matchPath c ?rest matches"
    let ?wild = "if ?seg \<noteq> ''/'' then
                   (case wildChild n of None \<Rightarrow> None
                    | Some c \<Rightarrow> matchPath c ?rest (matches @ [?seg])) else None"
    from "1.prems"(2) False have res:
      "(case ?lit of Some r \<Rightarrow> Some r
        | None \<Rightarrow> (case ?wild of Some r \<Rightarrow> Some r
            | None \<Rightarrow> (case multiChild n of None \<Rightarrow> None
                 | Some c \<Rightarrow> Some (c, multiMatches c path matches)))) = Some (leaf, ms')"
      by (subst (asm) matchPath.simps) simp
    show ?thesis
    proof (cases ?lit)
      case (Some r)
      with res have r: "r = (leaf, ms')" by simp
      from Some obtain c where c: "findChild n ?seg = Some c"
        and mc: "matchPath c ?rest matches = Some (leaf, ms')"
        unfolding r by (auto split: option.splits)
      from h findChild_mem [OF c] have hc: "holds R h m (pre @ [Lit ?seg]) c" by blast
      from "1.IH"(1) [OF False c hc mc]
      obtain p segs rest where p: "node_pattern leaf = Some p" "p \<in> R" "pat_host p = h"
        "pat_method p = m" "pat_segments p = segs @ rest" "map segStep segs = pre @ [Lit ?seg]"
        "\<forall>sg \<in> set segs. \<not> seg_multi sg" "multiConsumed rest ?rest \<noteq> None"
        by blast
      from map_segStep_snoc [OF p(6)] obtain segs0 sg where
        s: "segs = segs0 @ [sg]" "map segStep segs0 = pre" "segStep sg = Lit ?seg" by blast
      from s(3) have sg: "\<not> seg_wild sg" "seg_s sg = ?seg"
        by (auto simp: segStep_def split: if_splits)
      from p(7) s(1) have nm: "\<not> seg_multi sg" by simp
      have "multiConsumed (sg # rest) path = multiConsumed rest ?rest"
        using False nm sg by (intro multiConsumed_step) auto
      with p s show ?thesis
        by (intro exI [of _ p] exI [of _ segs0] exI [of _ "sg # rest"]) auto
    next
      case None
      note lit = None
      show ?thesis
      proof (cases ?wild)
        case (Some r)
        with res lit have r: "r = (leaf, ms')" by simp
        from Some have ns: "?seg \<noteq> ''/''" by (auto split: if_splits)
        with Some obtain c where c: "wildChild n = Some c"
          and mc: "matchPath c ?rest (matches @ [?seg]) = Some (leaf, ms')"
          unfolding r by (auto split: option.splits if_splits)
        from h c have hc: "holds R h m (pre @ [Wild]) c" by blast
        from "1.IH"(2) [OF False lit ns c hc mc]
        obtain p segs rest where p: "node_pattern leaf = Some p" "p \<in> R" "pat_host p = h"
          "pat_method p = m" "pat_segments p = segs @ rest" "map segStep segs = pre @ [Wild]"
          "\<forall>sg \<in> set segs. \<not> seg_multi sg" "multiConsumed rest ?rest \<noteq> None"
          by blast
        from map_segStep_snoc [OF p(6)] obtain segs0 sg where
          s: "segs = segs0 @ [sg]" "map segStep segs0 = pre" "segStep sg = Wild" by blast
        from s(3) have sg: "seg_wild sg"
          by (auto simp: segStep_def split: if_splits)
        from p(7) s(1) have nm: "\<not> seg_multi sg" by simp
        have "multiConsumed (sg # rest) path = multiConsumed rest ?rest"
          using False nm sg ns by (intro multiConsumed_step) auto
        with p s show ?thesis
          by (intro exI [of _ p] exI [of _ segs0] exI [of _ "sg # rest"]) auto
      next
        case None
        with res lit obtain c where c: "multiChild n = Some c" and l: "leaf = c"
          by (auto split: option.splits)
        with h obtain p where p: "node_pattern c = Some p" "multiAt R h m pre p" by blast
        from p(2) obtain segs ms rest where s: "p \<in> R" "pat_host p = h" "pat_method p = m"
          "pat_segments p = segs @ ms # rest" "seg_multi ms" "map segStep segs = pre"
          "\<forall>sg \<in> set segs. \<not> seg_multi sg"
          by (auto simp: multiAt_def)
        with p(1) l False show ?thesis
          by (intro exI [of _ p] exI [of _ segs] exI [of _ "ms # rest"]) auto
      qed
    qed
  qed
qed

lemma update_mem:
  "(k, c) \<in> set (AList.update key v al) \<Longrightarrow> (k, c) = (key, v) \<or> (k, c) \<in> set al"
  by (induction al) (auto split: if_splits)

lemma holds_childOrEmpty:
  "holds R h m pre n \<Longrightarrow> holds R h m (pre @ [Lit k]) (childOrEmpty n k)"
proof (cases "findChild n k")
  case None
  then show ?thesis by (simp add: childOrEmpty_def)
next
  case (Some c)
  assume "holds R h m pre n"
  with findChild_mem [OF Some] have "holds R h m (pre @ [Lit k]) c"
    using iffD1 [OF holds_iff] by blast
  with Some show ?thesis by (simp add: childOrEmpty_def)
qed

lemma holds_wildOrEmpty:
  "holds R h m pre n \<Longrightarrow> holds R h m (pre @ [Wild]) (wildOrEmpty n)"
proof (cases "wildChild n")
  case None
  then show ?thesis by (simp add: wildOrEmpty_def)
next
  case (Some c)
  assume "holds R h m pre n"
  with Some have "holds R h m (pre @ [Wild]) c"
    using iffD1 [OF holds_iff] by blast
  with Some show ?thesis by (simp add: wildOrEmpty_def)
qed

lemma holds_setChild:
  assumes "holds R h m pre n" and "holds R h m (pre @ [Lit key]) c"
  shows "holds R h m pre (setChild n key c)"
proof -
  note hn = iffD1 [OF holds_iff assms(1)]
  show ?thesis
    unfolding setChild_def holds_node
    using hn assms(2) by (auto dest!: update_mem)
qed

lemma holds_addSegments:
  "holds R h m pre n \<Longrightarrow> p \<in> R \<Longrightarrow> pat_host p = h \<Longrightarrow> pat_method p = m \<Longrightarrow>
   pat_segments p = segs0 @ segs \<Longrightarrow> map segStep segs0 = pre \<Longrightarrow>
   (\<forall>sg \<in> set segs0. \<not> seg_multi sg) \<Longrightarrow>
   holds R h m pre (addSegments n segs p hdl)"
proof (induction segs arbitrary: n pre segs0)
  case Nil
  note hn = iffD1 [OF holds_iff Nil.prems(1)]
  from Nil.prems have "leafAt R h m pre p" by (simp add: leafAt_def)
  with hn show ?case by (simp add: holds_node)
next
  case (Cons sg segs)
  note hn = iffD1 [OF holds_iff Cons.prems(1)]
  show ?case
  proof (cases "seg_multi sg")
    case True
    with Cons.prems have "multiAt R h m pre p"
      by (auto simp: multiAt_def)
    with hn True show ?thesis by (simp add: holds_node)
  next
    case False
    note nm = False
    have segs0': "pat_segments p = (segs0 @ [sg]) @ segs" using Cons.prems(5) by simp
    have nm0: "\<forall>x \<in> set (segs0 @ [sg]). \<not> seg_multi x" using Cons.prems(7) nm by simp
    show ?thesis
    proof (cases "seg_wild sg")
      case True
      have "segStep sg = Wild" using True by (simp add: segStep_def)
      with Cons.prems(6) have st: "map segStep (segs0 @ [sg]) = pre @ [Wild]"
        by simp
      have "holds R h m (pre @ [Wild]) (addSegments (wildOrEmpty n) segs p hdl)"
        by (rule Cons.IH [OF holds_wildOrEmpty [OF Cons.prems(1)] Cons.prems(2,3,4) segs0' st nm0])
      with hn nm True show ?thesis by (simp add: holds_node)
    next
      case False
      have "segStep sg = Lit (seg_s sg)" using False by (simp add: segStep_def)
      with Cons.prems(6) have st: "map segStep (segs0 @ [sg]) = pre @ [Lit (seg_s sg)]"
        by simp
      have "holds R h m (pre @ [Lit (seg_s sg)])
              (addSegments (childOrEmpty n (seg_s sg)) segs p hdl)"
        by (rule Cons.IH [OF holds_childOrEmpty [OF Cons.prems(1)] Cons.prems(2,3,4) segs0' st nm0])
      with Cons.prems(1) nm False show ?thesis by (simp add: holds_setChild)
    qed
  qed
qed

lemma treeHolds_mono: "treeHolds R root \<Longrightarrow> R \<subseteq> R' \<Longrightarrow> treeHolds R' root"
  unfolding treeHolds_def using holds_mono by blast

lemma treeHolds_empty: "treeHolds R emptyNode"
  by (simp add: treeHolds_def emptyNode_def)

lemma children_setChild:
  "(k, c) \<in> set (children (setChild n key v)) \<Longrightarrow> (k, c) = (key, v) \<or> (k, c) \<in> set (children n)"
  by (auto simp: setChild_def dest!: update_mem)

lemma childOrEmpty_children:
  "(m, mn) \<in> set (children (childOrEmpty root h)) \<Longrightarrow>
   \<exists>hn. (h, hn) \<in> set (children root) \<and> (m, mn) \<in> set (children hn)"
  by (cases "findChild root h") (auto simp: childOrEmpty_def emptyNode_def dest: findChild_mem)

lemma treeHolds_addPattern:
  assumes "treeHolds R root" and "p \<in> R"
  shows "treeHolds R (routingNode_addPattern root p hdl)"
proof -
  let ?hn = "childOrEmpty root (pat_host p)"
  let ?mn = "childOrEmpty ?hn (pat_method p)"
  have hmn: "holds R (pat_host p) (pat_method p) [] ?mn"
  proof (cases "findChild ?hn (pat_method p)")
    case None
    then show ?thesis by (simp add: childOrEmpty_def)
  next
    case (Some c)
    from findChild_mem [OF Some] childOrEmpty_children [of "pat_method p" c root "pat_host p"]
    obtain hn where "(pat_host p, hn) \<in> set (children root)"
      "(pat_method p, c) \<in> set (children hn)" by blast
    with assms(1) have "holds R (pat_host p) (pat_method p) [] c"
      unfolding treeHolds_def by blast
    with Some show ?thesis by (simp add: childOrEmpty_def)
  qed
  have new: "holds R (pat_host p) (pat_method p) []
               (addSegments ?mn (pat_segments p) p hdl)"
    by (rule holds_addSegments [OF hmn assms(2) refl refl, of "[]"]) simp_all
  show ?thesis
    unfolding treeHolds_def
  proof (intro allI impI)
    fix h hn m mn
    assume a: "(h, hn) \<in> set (children (routingNode_addPattern root p hdl))"
      and b: "(m, mn) \<in> set (children hn)"
    from a have "(h, hn) = (pat_host p,
          setChild ?hn (pat_method p) (addSegments ?mn (pat_segments p) p hdl)) \<or>
        (h, hn) \<in> set (children root)"
      by (auto simp: routingNode_addPattern_def Let_def dest!: children_setChild)
    then show "holds R h m [] mn"
    proof
      assume old: "(h, hn) \<in> set (children root)"
      with assms(1) b show ?thesis unfolding treeHolds_def by blast
    next
      assume e: "(h, hn) = (pat_host p,
          setChild ?hn (pat_method p) (addSegments ?mn (pat_segments p) p hdl))"
      with b children_setChild [of m mn ?hn "pat_method p"]
      have "(m, mn) = (pat_method p, addSegments ?mn (pat_segments p) p hdl) \<or>
            (m, mn) \<in> set (children ?hn)"
        by auto
      then show ?thesis
      proof
        assume "(m, mn) = (pat_method p, addSegments ?mn (pat_segments p) p hdl)"
        with e new show ?thesis by simp
      next
        assume "(m, mn) \<in> set (children ?hn)"
        from childOrEmpty_children [OF this] obtain hn' where
          "(pat_host p, hn') \<in> set (children root)" "(m, mn) \<in> set (children hn')" by blast
        with assms(1) e show ?thesis unfolding treeHolds_def by auto
      qed
    qed
  qed
qed

lemma registered_treeHolds: "registered R mux \<Longrightarrow> treeHolds R (mux_tree mux)"
proof (induction rule: registered.induct)
  case registered_new
  then show ?case by (simp add: NewServeMux_def treeHolds_empty)
next
  case (registered_step R mux patstr parsed caller h mux')
  from registered_step.hyps(2,3) have
    t: "mux_tree mux' = routingNode_addPattern (mux_tree mux) (withLoc parsed caller) h"
    by (auto simp: registerErr_def Let_def split: if_splits option.splits)
  have "treeHolds (insert (withLoc parsed caller) R) (mux_tree mux)"
    using registered_step.IH by (rule treeHolds_mono) auto
  then show ?case unfolding t by (rule treeHolds_addPattern) simp
qed

lemma matchMethodAndPath_sound:
  assumes "\<forall>m mn. (m, mn) \<in> set (children hn) \<longrightarrow> holds R h m [] mn"
    and "matchMethodAndPath (Some hn) method path = Some (leaf, ms)"
  shows "\<exists>p \<in> R. node_pattern leaf = Some p \<and> pat_host p = h \<and> methodMatches p method \<and>
           multiConsumed (pat_segments p) path \<noteq> None"
proof -
  from assms(2) obtain m c where c: "findChild hn m = Some c"
    and mp: "matchPath c path [] = Some (leaf, ms)"
    and m: "m = method \<or> (method = ''HEAD'' \<and> m = ''GET'') \<or> m = []"
    by (auto simp: matchMethodAndPath_def split: option.splits if_splits)
  from assms(1) findChild_mem [OF c] have "holds R h m [] c" by blast
  from matchPath_sound [OF this mp] obtain p where
    "node_pattern leaf = Some p" "p \<in> R" "pat_host p = h" "pat_method p = m"
    "multiConsumed (pat_segments p) path \<noteq> None"
    by auto
  with m show ?thesis by (auto simp: methodMatches_def)
qed

lemma matchMethodAndPath_Some:
  "matchMethodAndPath x method path = Some r \<Longrightarrow> \<exists>hn. x = Some hn"
  by (cases x) (auto simp: matchMethodAndPath_def)

lemma routingNode_match_sound:
  assumes "treeHolds R root" and "routingNode_match root host method path = Some (leaf, ms)"
  shows "\<exists>p \<in> R. node_pattern leaf = Some p \<and> patternMatches p host method path"
proof -
  from assms(2) have
    "matchMethodAndPath (findChild root host) method path = Some (leaf, ms) \<or>
     matchMethodAndPath (findChild root []) method path = Some (leaf, ms)"
    by (auto simp: routingNode_match_def split: option.splits if_splits)
  then obtain h where mm0: "matchMethodAndPath (findChild root h) method path = Some (leaf, ms)"
    and h: "h = host \<or> h = []"
    by blast
  from matchMethodAndPath_Some [OF mm0] obtain hn where hn: "findChild root h = Some hn"
    by blast
  with mm0 have mm: "matchMethodAndPath (Some hn) method path = Some (leaf, ms)" by simp
  from assms(1) findChild_mem [OF hn]
  have "\<forall>m mn. (m, mn) \<in> set (children hn) \<longrightarrow> holds R h m [] mn"
    unfolding treeHolds_def by blast
  from matchMethodAndPath_sound [OF this mm] h show ?thesis
    by (auto simp: patternMatches_def hostMatches_def)
qed

lemma matchingMethodsPath_sound:
  assumes "\<forall>m mn. (m, mn) \<in> set (children hn) \<longrightarrow> holds R h m [] mn"
    and "x \<in> matchingMethodsPath (Some hn) path {}"
  shows "\<exists>p \<in> R. pat_host p = h \<and> multiConsumed (pat_segments p) path \<noteq> None"
proof -
  from assms(2) obtain c r where c: "(x, c) \<in> set (children hn)"
    and mp: "matchPath c path [] = Some r"
    by (auto simp: matchingMethodsPath_def)
  from assms(1) c have "holds R h x [] c" by blast
  from matchPath_sound [OF this, of path "[]" "fst r" "snd r"] mp show ?thesis
    by auto
qed

lemma routingNode_matchingMethods_sound:
  assumes "treeHolds R root" and "\<forall>p \<in> R. \<not> hostPathMatches p host path"
  shows "routingNode_matchingMethods root host path {} = {}"
proof -
  have e: "matchingMethodsPath (findChild root h) path {} = {}" if "h = host \<or> h = []" for h
  proof (cases "findChild root h")
    case None
    then show ?thesis by (simp add: matchingMethodsPath_def)
  next
    case (Some hn)
    from assms(1) findChild_mem [OF Some]
    have hh: "\<forall>m mn. (m, mn) \<in> set (children hn) \<longrightarrow> holds R h m [] mn"
      unfolding treeHolds_def by blast
    show ?thesis
    proof (rule ccontr)
      assume "matchingMethodsPath (findChild root h) path {} \<noteq> {}"
      then obtain x where "x \<in> matchingMethodsPath (Some hn) path {}" using Some by auto
      from matchingMethodsPath_sound [OF hh this] obtain p where
        "p \<in> R" "pat_host p = h" "multiConsumed (pat_segments p) path \<noteq> None" by blast
      with that assms(2) show False
        by (auto simp: hostPathMatches_def hostMatches_def)
    qed
  qed
  show ?thesis
    unfolding routingNode_matchingMethods_def Let_def
    using e [of host] e [of "[]"] by simp
qed

lemma routingNode_match_none:
  assumes "treeHolds R root" and "\<forall>p \<in> R. \<not> hostPathMatches p host path"
  shows "routingNode_match root host method path = None"
proof (rule ccontr)
  assume "routingNode_match root host method path \<noteq> None"
  then obtain leaf ms where "routingNode_match root host method path = Some (leaf, ms)"
    by auto
  from routingNode_match_sound [OF assms(1) this] assms(2) show False
    by (auto simp: patternMatches_def hostPathMatches_def)
qed

lemma not_found_general:
  assumes "registered R mux"
    and "\<forall>p \<in> R. \<not> hostPathMatches p host path \<and>
           (\<not> hasSuffixSlash path \<longrightarrow> \<not> hostPathMatches p host (path @ ''/''))"
  shows "ServeMux_matchingMethods mux host path = []"
    and "req_Method r \<noteq> ''CONNECT'' \<and> stripHostPort shp (req_Host r) = host \<and>
         req_EscapedPath r = path \<and> cleanPath path = path \<longrightarrow>
         findHandler shp mux r = Some (NotFoundHandler, [], None, [])"
proof -
  note th = registered_treeHolds [OF assms(1)]
  from assms(2) have n1: "\<forall>p \<in> R. \<not> hostPathMatches p host path" by blast
  have mm1: "routingNode_matchingMethods (mux_tree mux) host path {} = {}"
    by (rule routingNode_matchingMethods_sound [OF th n1])
  have m1: "routingNode_match (mux_tree mux) host mth path = None" for mth
    by (rule routingNode_match_none [OF th n1])
  have mm2: "routingNode_matchingMethods (mux_tree mux) host (path @ ''/'') {} = {}"
    and m2: "routingNode_match (mux_tree mux) host mth (path @ ''/'') = None"
    if "\<not> hasSuffixSlash path" for mth
    using that assms(2) routingNode_matchingMethods_sound [OF th, of host "path @ ''/''"]
      routingNode_match_none [OF th, of host "path @ ''/''" mth]
    by blast+
  have "set (ServeMux_matchingMethods mux host path) = {}"
    using mm1 mm2 by (simp add: set_matchingMethods)
  then show mms: "ServeMux_matchingMethods mux host path = []" by simp
  have mr: "matchOrRedirect mux host mth path (Some u) = Some (None, [], None)" for mth u
    using m1 m2 by (simp add: matchOrRedirect_def exactMatch_def)
  show "req_Method r \<noteq> ''CONNECT'' \<and> stripHostPort shp (req_Host r) = host \<and>
         req_EscapedPath r = path \<and> cleanPath path = path \<longrightarrow>
         findHandler shp mux r = Some (NotFoundHandler, [], None, [])"
    using mr mms
    by (auto simp: findHandler_def Let_def foundNode_def notFoundOrNotAllowed_def)
qed

lemma register_get_x:
  assumes "\<not> nilHandler h"
  shows "\<exists>m. registerErr NewServeMux c ''GET /x'' h = Some (None, m) \<and>
           (\<forall>host. routingNode_match (mux_tree m) host ''POST'' ''/x'' = None \<and>
                   routingNode_match (mux_tree m) host ''POST'' ''/x/'' = None \<and>
                   ServeMux_matchingMethods m host ''/x'' = [''GET'', ''HEAD''])"
proof -
  from assms have h: "h \<noteq> NilInterface" "h \<noteq> HandlerFunc None" by (auto simp: nilHandler_def)
  then show ?thesis
    by (auto simp add: reg_defs parse_defs match_defs methods_defs)
qed

lemma findHandler_post_x:
  assumes "\<forall>host. routingNode_match (mux_tree m) host ''POST'' ''/x'' = None \<and>
                   routingNode_match (mux_tree m) host ''POST'' ''/x/'' = None \<and>
                   ServeMux_matchingMethods m host ''/x'' = [''GET'', ''HEAD'']"
  shows "findHandler shp m
           \<lparr>req_Method = ''POST'', req_Host = rh, req_URL = u, req_EscapedPath = ''/x''\<rparr> =
         Some (MethodNotAllowed [''GET'', ''HEAD''], [], None, [])"
  using assms
  by (simp add: findHandler_def Let_def matchOrRedirect_def exactMatch_def foundNode_def
        notFoundOrNotAllowed_def path_defs)

section \<open>Method not allowed, or not found\<close>

text \<open>
  Claim C8 as stated fails in its second part: with only \<open>GET /x/\<close> registered, no
  registered pattern matches the host and the path \<open>/x\<close>, and yet
  \<open>matchingMethods\<close> of \<open>/x\<close> is \<open>GET, HEAD\<close> and \<open>findHandler\<close> answers a \<open>POST\<close> of
  \<open>/x\<close> with method-not-allowed.
\<close>

theorem method_mismatch_counterexample:
  "registerErr NewServeMux None ''GET /x/'' (OtherHandler 0) = Some (None, getXSlashMux) \<and>
   registered {getXSlashPattern} getXSlashMux \<and>
   \<not> hostPathMatches getXSlashPattern ''example.com'' ''/x'' \<and>
   ServeMux_matchingMethods getXSlashMux ''example.com'' ''/x'' = [''GET'', ''HEAD''] \<and>
   findHandler Map.empty getXSlashMux
     \<lparr>req_Method = ''POST'', req_Host = ''example.com'',
      req_URL = \<lparr>url_Host = [], url_Path = ''/x'', url_RawQuery = []\<rparr>,
      req_EscapedPath = ''/x''\<rparr> =
     Some (MethodNotAllowed [''GET'', ''HEAD''], [], None, [])"
proof -
  have p: "parsePattern ''GET /x/'' =
      Inr \<lparr>pat_str = ''GET /x/'', pat_method = ''GET'', pat_host = [],
          pat_segments = [\<lparr>seg_s = ''x'', seg_wild = False, seg_multi = False\<rparr>,
                          \<lparr>seg_s = [], seg_wild = True, seg_multi = True\<rparr>],
          pat_loc = []\<rparr>"
    by (simp add: parse_defs)
  have r: "registerErr NewServeMux None ''GET /x/'' (OtherHandler 0) = Some (None, getXSlashMux)"
    by (simp add: reg_defs p getXSlashMux_def getXSlashPattern_def leafNode_def)
  have g: "registered {getXSlashPattern} getXSlashMux"
    using registered_step [OF registered_new p r]
    by (simp add: withLoc_def getXSlashPattern_def)
  have n: "\<not> hostPathMatches getXSlashPattern ''example.com'' ''/x''"
    by (simp add: hostPathMatches_def getXSlashPattern_def firstSegment_def pathUnescape_def)
  have mt: "routingNode_match (mux_tree getXSlashMux) ''example.com'' ''POST'' ''/x'' = None"
    "routingNode_match (mux_tree getXSlashMux) ''example.com'' ''POST'' ''/x/'' = None"
    by (simp_all add: match_defs pathUnescape_def findChild_def getXSlashMux_def)
  have mm: "ServeMux_matchingMethods getXSlashMux ''example.com'' ''/x'' = [''GET'', ''HEAD'']"
    by (simp add: methods_defs match_defs pathUnescape_def findChild_def getXSlashMux_def
          leafNode_def getXSlashPattern_def lastSegment_def insert_commute)
  have f: "findHandler Map.empty getXSlashMux
     \<lparr>req_Method = ''POST'', req_Host = ''example.com'',
      req_URL = \<lparr>url_Host = [], url_Path = ''/x'', url_RawQuery = []\<rparr>,
      req_EscapedPath = ''/x''\<rparr> =
     Some (MethodNotAllowed [''GET'', ''HEAD''], [], None, [])"
    using mt mm
    by (simp add: findHandler_def Let_def matchOrRedirect_def exactMatch_def foundNode_def
          notFoundOrNotAllowed_def path_defs stripHostPort_def)
  from r g n mm f show ?thesis by simp
qed

text \<open>
  Claim C8, as amended. With only \<open>GET /x\<close> registered, \<open>matchingMethods\<close> of \<open>/x\<close> is
  \<open>GET, HEAD\<close> for every host, and \<open>findHandler\<close> answers a \<open>POST\<close> of \<open>/x\<close> with
  method-not-allowed. On a mux with the registered patterns \<open>R\<close>, when no pattern of
  \<open>R\<close> matches the host with the path, nor (for a path that does not end in a slash)
  with the path and a slash appended, \<open>matchingMethods\<close> returns the empty list, and
  \<open>findHandler\<close> answers every request other than \<open>CONNECT\<close> with this host and this
  path, the path being clean, with not-found.
\<close>

theorem method_mismatch_or_not_found:
  "(\<not> nilHandler h \<longrightarrow>
      (\<exists>m. registerErr NewServeMux c ''GET /x'' h = Some (None, m) \<and>
           ServeMux_matchingMethods m host ''/x'' = [''GET'', ''HEAD''] \<and>
           findHandler shp m
             \<lparr>req_Method = ''POST'', req_Host = rh, req_URL = u, req_EscapedPath = ''/x''\<rparr> =
             Some (MethodNotAllowed [''GET'', ''HEAD''], [], None, []))) \<and>
   (registered R mux \<and>
    (\<forall>p \<in> R. \<not> hostPathMatches p host' path \<and>
              (\<not> hasSuffixSlash path \<longrightarrow> \<not> hostPathMatches p host' (path @ ''/''))) \<longrightarrow>
      ServeMux_matchingMethods mux host' path = [] \<and>
      (req_Method r \<noteq> ''CONNECT'' \<and> stripHostPort shp' (req_Host r) = host' \<and>
       req_EscapedPath r = path \<and> cleanPath path = path \<longrightarrow>
         findHandler shp' mux r = Some (NotFoundHandler, [], None, [])))"
proof (rule conjI)
  show "\<not> nilHandler h \<longrightarrow>
      (\<exists>m. registerErr NewServeMux c ''GET /x'' h = Some (None, m) \<and>
           ServeMux_matchingMethods m host ''/x'' = [''GET'', ''HEAD''] \<and>
           findHandler shp m
             \<lparr>req_Method = ''POST'', req_Host = rh, req_URL = u, req_EscapedPath = ''/x''\<rparr> =
             Some (MethodNotAllowed [''GET'', ''HEAD''], [], None, []))"
  proof
    assume "\<not> nilHandler h"
    from register_get_x [OF this, of c] obtain m where
      m: "registerErr NewServeMux c ''GET /x'' h = Some (None, m)"
      and a: "\<forall>host. routingNode_match (mux_tree m) host ''POST'' ''/x'' = None \<and>
                   routingNode_match (mux_tree m) host ''POST'' ''/x/'' = None \<and>
                   ServeMux_matchingMethods m host ''/x'' = [''GET'', ''HEAD'']"
      by blast
    from m a findHandler_post_x [OF a, of shp rh u]
    show "\<exists>m. registerErr NewServeMux c ''GET /x'' h = Some (None, m) \<and>
           ServeMux_matchingMethods m host ''/x'' = [''GET'', ''HEAD''] \<and>
           findHandler shp m
             \<lparr>req_Method = ''POST'', req_Host = rh, req_URL = u, req_EscapedPath = ''/x''\<rparr> =
             Some (MethodNotAllowed [''GET'', ''HEAD''], [], None, [])"
      by blast
  qed
next
  show "registered R mux \<and>
    (\<forall>p \<in> R. \<not> hostPathMatches p host' path \<and>
              (\<not> hasSuffixSlash path \<longrightarrow> \<not> hostPathMatches p host' (path @ ''/''))) \<longrightarrow>
      ServeMux_matchingMethods mux host' path = [] \<and>
      (req_Method r \<noteq> ''CONNECT'' \<and> stripHostPort shp' (req_Host r) = host' \<and>
       req_EscapedPath r = path \<and> cleanPath path = path \<longrightarrow>
         findHandler shp' mux r = Some (NotFoundHandler, [], None, []))"
  proof
    assume a: "registered R mux \<and>
      (\<forall>p \<in> R. \<not> hostPathMatches p host' path \<and>
              (\<not> hasSuffixSlash path \<longrightarrow> \<not> hostPathMatches p host' (path @ ''/'')))"
    then have r: "registered R mux"
      and n: "\<forall>p \<in> R. \<not> hostPathMatches p host' path \<and>
              (\<not> hasSuffixSlash path \<longrightarrow> \<not> hostPathMatches p host' (path @ ''/''))"
      by blast+
    from not_found_general(1) [OF r n] not_found_general(2) [OF r n, of r shp']
    show "ServeMux_matchingMethods mux host' path = [] \<and>
      (req_Method r \<noteq> ''CONNECT'' \<and> stripHostPort shp' (req_Host r) = host' \<and>
       req_EscapedPath r = path \<and> cleanPath path = path \<longrightarrow>
         findHandler shp' mux r = Some (NotFoundHandler, [], None, []))"
      by (rule conjI)
  qed
qed

theorem method_mismatch_or_not_found_witness:
  "\<exists>m. registerErr NewServeMux None ''GET /x'' (OtherHandler 1) = Some (None, m) \<and>
       ServeMux_matchingMethods m ''example.com'' ''/x'' = [''GET'', ''HEAD''] \<and>
       findHandler Map.empty m
         \<lparr>req_Method = ''POST'', req_Host = ''example.com'',
          req_URL = \<lparr>url_Host = [], url_Path = ''/x'', url_RawQuery = []\<rparr>,
          req_EscapedPath = ''/x''\<rparr> =
         Some (MethodNotAllowed [''GET'', ''HEAD''], [], None, []) \<and>
       ServeMux_matchingMethods m ''example.com'' ''/y'' = [] \<and>
       findHandler Map.empty m
         \<lparr>req_Method = ''POST'', req_Host = ''example.com'',
          req_URL = \<lparr>url_Host = [], url_Path = ''/y'', url_RawQuery = []\<rparr>,
          req_EscapedPath = ''/y''\<rparr> =
         Some (NotFoundHandler, [], None, [])"
proof -
  let ?P = "\<lparr>pat_str = ''GET /x'', pat_method = ''GET'', pat_host = [],
             pat_segments = [\<lparr>seg_s = ''x'', seg_wild = False, seg_multi = False\<rparr>],
             pat_loc = []\<rparr>"
  let ?rx = "\<lparr>req_Method = ''POST'', req_Host = ''example.com'',
          req_URL = \<lparr>url_Host = [], url_Path = ''/x'', url_RawQuery = []\<rparr>,
          req_EscapedPath = ''/x''\<rparr>"
  let ?ry = "\<lparr>req_Method = ''POST'', req_Host = ''example.com'',
          req_URL = \<lparr>url_Host = [], url_Path = ''/y'', url_RawQuery = []\<rparr>,
          req_EscapedPath = ''/y''\<rparr>"
  have p: "parsePattern ''GET /x'' = Inr ?P" by (simp add: parse_defs)
  have nh: "\<not> nilHandler (OtherHandler 1)" by (simp add: nilHandler_def)
  from method_mismatch_or_not_found [of "OtherHandler 1" None "''example.com''" Map.empty
      "''example.com''" "\<lparr>url_Host = [], url_Path = ''/x'', url_RawQuery = []\<rparr>"] nh
  obtain m where m: "registerErr NewServeMux None ''GET /x'' (OtherHandler 1) = Some (None, m)"
    and a: "ServeMux_matchingMethods m ''example.com'' ''/x'' = [''GET'', ''HEAD'']"
    and f: "findHandler Map.empty m ?rx = Some (MethodNotAllowed [''GET'', ''HEAD''], [], None, [])"
    by blast
  have g: "registered {withLoc ?P None} m"
    using registered_step [OF registered_new p m] by simp
  have n: "\<forall>q \<in> {withLoc ?P None}. \<not> hostPathMatches q ''example.com'' ''/y'' \<and>
              (\<not> hasSuffixSlash ''/y'' \<longrightarrow> \<not> hostPathMatches q ''example.com'' (''/y'' @ ''/''))"
    by (simp add: hostPathMatches_def firstSegment_def pathUnescape_def)
  have c: "req_Method ?ry \<noteq> ''CONNECT'' \<and> stripHostPort Map.empty (req_Host ?ry) = ''example.com'' \<and>
       req_EscapedPath ?ry = ''/y'' \<and> cleanPath ''/y'' = ''/y''"
    by (simp add: stripHostPort_def path_defs)
  from method_mismatch_or_not_found [of _ _ _ _ _ _ "{withLoc ?P None}" m "''example.com''" "''/y''"
      ?ry Map.empty] g n c
  have "ServeMux_matchingMethods m ''example.com'' ''/y'' = [] \<and>
        findHandler Map.empty m ?ry = Some (NotFoundHandler, [], None, [])"
    by blast
  with m a f show ?thesis by blast
qed

section \<open>Exact matches of matched nodes\<close>

lemma multiOnlyLast_Cons:
  "\<not> seg_multi sg \<Longrightarrow> multiOnlyLast segs \<Longrightarrow> multiOnlyLast (sg # segs)"
  by (cases segs) auto

lemma parseSegments_multiOnlyLast:
  "parseSegments cs seen = Inr segs \<Longrightarrow> multiOnlyLast segs"
proof (induction cs arbitrary: seen segs)
  case Nil
  then show ?case by simp
next
  case (Cons seg rest)
  show ?case
  proof (cases "seg = [] \<and> rest = []")
    case True
    with Cons.prems show ?thesis by auto
  next
    case False
    note ne = False
    show ?thesis
    proof (cases "CHR ''{'' \<notin> set seg")
      case True
      with ne Cons.prems obtain segs' where
        s: "parseSegments rest seen = Inr segs'"
           "segs = \<lparr>seg_s = pathUnescape seg, seg_wild = False, seg_multi = False\<rparr> # segs'"
        by (auto split: sum.splits)
      from Cons.IH [OF s(1)] s(2) show ?thesis
        by (simp add: multiOnlyLast_Cons)
    next
      case False
      let ?name = "butlast (tl seg)"
      show ?thesis
      proof (cases "?name = ''$''")
        case True
        with ne False Cons.prems show ?thesis
          by (auto simp: Let_def split: if_splits)
      next
        case False
        note nd = False
        let ?multi = "hasSuffixDots ?name"
        let ?name' = "if ?multi then take (length ?name - 3) ?name else ?name"
        from ne \<open>\<not> CHR ''{'' \<notin> set seg\<close> nd Cons.prems obtain segs' where
          s: "parseSegments rest (?name' # seen) = Inr segs'"
             "segs = \<lparr>seg_s = ?name', seg_wild = True, seg_multi = ?multi\<rparr> # segs'"
             "\<not> (?multi \<and> rest \<noteq> [])"
          by (auto simp: Let_def split: if_splits sum.splits)
        show ?thesis
        proof (cases ?multi)
          case True
          with s(3) have "rest = []" by simp
          with s(1) have "segs' = []" by simp
          with s(2) show ?thesis by simp
        next
          case False
          with Cons.IH [OF s(1)] s(2) show ?thesis
            by (simp add: multiOnlyLast_Cons)
        qed
      qed
    qed
  qed
qed

lemma parsePattern_multiOnlyLast:
  "parsePattern s = Inr p \<Longrightarrow> multiOnlyLast (pat_segments p)"
  by (auto simp: parsePattern_def Let_def split: if_splits sum.splits
        dest: parseSegments_multiOnlyLast)

lemma registered_multiOnlyLast:
  "registered R mux \<Longrightarrow> \<forall>p \<in> R. multiOnlyLast (pat_segments p)"
proof (induction rule: registered.induct)
  case registered_new
  then show ?case by simp
next
  case (registered_step R mux patstr parsed caller h mux')
  from parsePattern_multiOnlyLast [OF registered_step.hyps(2)] registered_step.IH
  show ?case by simp
qed

lemma exactMatch_matched_node:
  assumes "registered R mux" and "hasPrefixSlash path"
    and "routingNode_match (mux_tree mux) host mth path = Some (n, ms)"
  shows "\<exists>p r. node_pattern n = Some p \<and> p \<in> R \<and> patternMatches p host mth path \<and>
           multiConsumed (pat_segments p) path = Some r \<and>
           exactMatch (Some n) path = Some (r = [])"
proof -
  from routingNode_match_sound [OF registered_treeHolds [OF assms(1)] assms(3)]
  obtain p where p: "p \<in> R" "node_pattern n = Some p" "patternMatches p host mth path"
    by blast
  then obtain r where r: "multiConsumed (pat_segments p) path = Some r"
    by (auto simp: patternMatches_def)
  from registered_multiOnlyLast [OF assms(1)] p(1) have mol: "multiOnlyLast (pat_segments p)"
    by blast
  from exactMatch_multiConsumed [OF p(2) mol assms(2) r] p r show ?thesis by blast
qed

text \<open>
  Claim C5. \<open>exactMatch\<close> of the nil node is false. For a node whose pattern has at
  least one segment, \<open>exactMatch\<close> is true when the last segment is not a multi wildcard,
  and for a pattern ending in a multi wildcard exactly when the path ends in a slash and
  has as many slashes as the pattern has segments. Whenever the pattern of the node
  matches a path that begins with a slash, \<open>exactMatch\<close> is true exactly when the multi
  wildcard (named, or the trailing slash) has taken no character of the path; and this
  is so for every node that a lookup of such a path returns, on every mux reached by
  registrations.
\<close>

theorem exactMatch_characterisation:
  "exactMatch None path = Some False \<and>
   (node_pattern n = Some pat \<and> pat_segments pat \<noteq> [] \<longrightarrow>
      exactMatch (Some n) path =
        Some (\<not> seg_multi (last (pat_segments pat)) \<or>
              (hasSuffixSlash path \<and> length (pat_segments pat) = countSlash path))) \<and>
   (node_pattern n = Some pat \<and> multiOnlyLast (pat_segments pat) \<and>
    hasPrefixSlash path \<and> multiConsumed (pat_segments pat) path = Some r \<longrightarrow>
      exactMatch (Some n) path = Some (r = [])) \<and>
   (registered R mux \<and> hasPrefixSlash path \<and>
    routingNode_match (mux_tree mux) host mth path = Some (leaf, ms) \<longrightarrow>
      (\<exists>p r'. node_pattern leaf = Some p \<and> p \<in> R \<and> patternMatches p host mth path \<and>
           multiConsumed (pat_segments p) path = Some r' \<and>
           exactMatch (Some leaf) path = Some (r' = [])))"
proof (intro conjI)
  show "exactMatch None path = Some False" by (simp add: exactMatch_def)
  show "node_pattern n = Some pat \<and> pat_segments pat \<noteq> [] \<longrightarrow>
      exactMatch (Some n) path =
        Some (\<not> seg_multi (last (pat_segments pat)) \<or>
              (hasSuffixSlash path \<and> length (pat_segments pat) = countSlash path))"
    by (simp add: exactMatch_concrete)
  show "node_pattern n = Some pat \<and> multiOnlyLast (pat_segments pat) \<and>
    hasPrefixSlash path \<and> multiConsumed (pat_segments pat) path = Some r \<longrightarrow>
      exactMatch (Some n) path = Some (r = [])"
    using exactMatch_multiConsumed [of n pat path r] by blast
  show "registered R mux \<and> hasPrefixSlash path \<and>
    routingNode_match (mux_tree mux) host mth path = Some (leaf, ms) \<longrightarrow>
      (\<exists>p r'. node_pattern leaf = Some p \<and> p \<in> R \<and> patternMatches p host mth path \<and>
           multiConsumed (pat_segments p) path = Some r' \<and>
           exactMatch (Some leaf) path = Some (r' = []))"
    using exactMatch_matched_node [of R mux path host mth leaf ms] by blast
qed

theorem exactMatch_characterisation_witness:
  "exactMatch None ''/images/thumb'' = Some False \<and>
   exactMatch (Some (imagesNode None (OtherHandler 0))) ''/images/thumb'' = Some False \<and>
   exactMatch (Some (imagesNode None (OtherHandler 0))) ''/images/'' = Some True \<and>
   multiConsumed (pat_segments (imagesPattern None)) ''/images/thumb'' = Some ''thumb'' \<and>
   multiConsumed (pat_segments (imagesPattern None)) ''/images/'' = Some [] \<and>
   registered {imagesPattern None} (imagesMux None (OtherHandler 0)) \<and>
   (\<exists>p r. node_pattern (imagesNode None (OtherHandler 0)) = Some p \<and>
          p \<in> {imagesPattern None} \<and>
          multiConsumed (pat_segments p) ''/images/thumb'' = Some r \<and>
          exactMatch (Some (imagesNode None (OtherHandler 0))) ''/images/thumb'' =
            Some (r = []))"
proof -
  let ?n = "imagesNode None (OtherHandler 0)" and ?p = "imagesPattern None"
  let ?m = "imagesMux None (OtherHandler 0)"
  have np: "node_pattern ?n = Some ?p" by (simp add: imagesNode_def)
  have mol: "multiOnlyLast (pat_segments ?p)" by (simp add: imagesPattern_def)
  have m1: "multiConsumed (pat_segments ?p) ''/images/thumb'' = Some ''thumb''"
    and m2: "multiConsumed (pat_segments ?p) ''/images/'' = Some []"
    by (simp_all add: imagesPattern_def firstSegment_def pathUnescape_def)
  have pre: "hasPrefixSlash ''/images/thumb''" "hasPrefixSlash ''/images/''"
    by (simp_all add: hasPrefixSlash_def)
  have parse: "parsePattern ''/images/'' =
      Inr \<lparr>pat_str = ''/images/'', pat_method = [], pat_host = [],
          pat_segments = [\<lparr>seg_s = ''images'', seg_wild = False, seg_multi = False\<rparr>,
                          \<lparr>seg_s = [], seg_wild = True, seg_multi = True\<rparr>],
          pat_loc = []\<rparr>"
    by (simp add: parse_defs)
  have reg: "registered {?p} ?m"
    using registered_step [OF registered_new parse register_images [of "OtherHandler 0" None]]
    by (simp add: nilHandler_def withLoc_def imagesPattern_def)
  note t1 = exactMatch_characterisation [of "''/images/thumb''" ?n ?p "''thumb''" "{?p}" ?m
      "''example.com''" "''GET''" ?n "[]"]
  note t2 = exactMatch_characterisation [of "''/images/''" ?n ?p "[]"]
  from t1 np mol pre(1) m1 have a: "exactMatch None ''/images/thumb'' = Some False"
    and b: "exactMatch (Some ?n) ''/images/thumb'' = Some False"
    by simp_all
  from t2 np mol pre(2) m2 have c: "exactMatch (Some ?n) ''/images/'' = Some True"
    by simp
  from t1 reg pre(1) match_images(3) [of None "OtherHandler 0" "''example.com''" "''GET''"]
  have d: "\<exists>p r. node_pattern ?n = Some p \<and> p \<in> {?p} \<and>
          multiConsumed (pat_segments p) ''/images/thumb'' = Some r \<and>
          exactMatch (Some ?n) ''/images/thumb'' = Some (r = [])"
    by blast
  from a b c m1 m2 reg d show ?thesis by blast
qed

end
